theory Spec2Isabelle
  imports Main "HOL-Library.Sublist" "HOL-Library.Word"
begin

section \<open>Go strings: the functions of package \<open>strings\<close> the engine calls\<close>

text \<open>
  A Go \<open>string\<close> is a sequence of bytes, here a \<open>char list\<close> (a \<open>char\<close> is one byte).
  An index result that Go reports as \<open>-1\<close> for "absent" is \<open>None\<close>.
\<close>

definition HasPrefix :: "string \<Rightarrow> string \<Rightarrow> bool" where
  "HasPrefix s p \<longleftrightarrow> prefix p s"

definition HasSuffix :: "string \<Rightarrow> string \<Rightarrow> bool" where
  "HasSuffix s p \<longleftrightarrow> suffix p s"

definition TrimPrefix :: "string \<Rightarrow> string \<Rightarrow> string" where
  "TrimPrefix s p = (if prefix p s then drop (length p) s else s)"

definition TrimSuffix :: "string \<Rightarrow> string \<Rightarrow> string" where
  "TrimSuffix s p = (if suffix p s then take (length s - length p) s else s)"

text \<open>\<open>strings.CutPrefix\<close> and \<open>strings.CutSuffix\<close>: the rest and whether the affix was there.\<close>

definition CutPrefix :: "string \<Rightarrow> string \<Rightarrow> string \<times> bool" where
  "CutPrefix s p = (if prefix p s then (drop (length p) s, True) else (s, False))"

definition CutSuffix :: "string \<Rightarrow> string \<Rightarrow> string \<times> bool" where
  "CutSuffix s p = (if suffix p s then (take (length s - length p) s, True) else (s, False))"

fun Contains :: "string \<Rightarrow> string \<Rightarrow> bool" where
  "Contains [] sub = (sub = [])"
| "Contains (c # cs) sub = (prefix sub (c # cs) \<or> Contains cs sub)"

text \<open>\<open>strings.Index\<close>: the byte offset of the first occurrence.\<close>

fun Index :: "string \<Rightarrow> string \<Rightarrow> nat option" where
  "Index [] sub = (if sub = [] then Some 0 else None)"
| "Index (c # cs) sub =
     (if prefix sub (c # cs) then Some 0 else map_option Suc (Index cs sub))"

fun IndexByte :: "string \<Rightarrow> char \<Rightarrow> nat option" where
  "IndexByte [] b = None"
| "IndexByte (c # cs) b = (if c = b then Some 0 else map_option Suc (IndexByte cs b))"

fun LastIndexByte :: "string \<Rightarrow> char \<Rightarrow> nat option" where
  "LastIndexByte [] b = None"
| "LastIndexByte (c # cs) b =
     (case LastIndexByte cs b of
        Some i \<Rightarrow> Some (Suc i)
      | None \<Rightarrow> (if c = b then Some 0 else None))"

text \<open>
  \<open>strings.ReplaceAll\<close> for a non-empty \<open>old\<close>: non-overlapping occurrences, left to
  right. Every call of the engine passes a non-empty constant.
\<close>

fun ReplaceAll :: "string \<Rightarrow> string \<Rightarrow> string \<Rightarrow> string" where
  "ReplaceAll [] old new = []"
| "ReplaceAll (c # cs) old new =
     (if old \<noteq> [] \<and> prefix old (c # cs)
      then new @ ReplaceAll (drop (length old - 1) cs) old new
      else c # ReplaceAll cs old new)"

text \<open>\<open>strings.TrimLeft\<close>, \<open>TrimRight\<close> and \<open>Trim\<close> with a cutset of ASCII bytes.\<close>

definition TrimLeft :: "string \<Rightarrow> string \<Rightarrow> string" where
  "TrimLeft s cutset = dropWhile (\<lambda>c. c \<in> set cutset) s"

definition TrimRight :: "string \<Rightarrow> string \<Rightarrow> string" where
  "TrimRight s cutset = rev (dropWhile (\<lambda>c. c \<in> set cutset) (rev s))"

definition Trim :: "string \<Rightarrow> string \<Rightarrow> string" where
  "Trim s cutset = TrimRight (TrimLeft s cutset) cutset"

definition ContainsAny :: "string \<Rightarrow> string \<Rightarrow> bool" where
  "ContainsAny s chars \<longleftrightarrow> list_ex (\<lambda>c. c \<in> set chars) s"

text \<open>
  \<open>strings.TrimSpace\<close> removes the leading and the trailing white space that Unicode
  defines, read as UTF-8: the six ASCII spaces, U+0085, U+00A0, U+1680, U+2000 to U+200A,
  U+2028, U+2029, U+202F, U+205F and U+3000. A byte that starts no valid encoding is the
  replacement rune, which is no space, so trimming stops there.
\<close>

definition unicodeSpaces :: "string list" where
  "unicodeSpaces =
     map (\<lambda>c. c # []) [CHR 0x09, CHR 0x0A, CHR 0x0B, CHR 0x0C, CHR 0x0D, CHR 0x20] @
     map (\<lambda>c. CHR 0xC2 # c # []) [CHR 0x85, CHR 0xA0] @
     map (\<lambda>c. CHR 0xE1 # CHR 0x9A # c # []) [CHR 0x80] @
     map (\<lambda>c. CHR 0xE2 # CHR 0x80 # c # [])
       [CHR 0x80, CHR 0x81, CHR 0x82, CHR 0x83, CHR 0x84, CHR 0x85, CHR 0x86, CHR 0x87,
        CHR 0x88, CHR 0x89, CHR 0x8A, CHR 0xA8, CHR 0xA9, CHR 0xAF] @
     map (\<lambda>c. CHR 0xE2 # CHR 0x81 # c # []) [CHR 0x9F] @
     map (\<lambda>c. CHR 0xE3 # CHR 0x80 # c # []) [CHR 0x80]"

text \<open>The length of the space rune a string starts with, \<open>0\<close> when it starts with none.\<close>

definition spaceLen :: "string \<Rightarrow> nat" where
  "spaceLen s = (case find (\<lambda>e. prefix e s) unicodeSpaces of None \<Rightarrow> 0 | Some e \<Rightarrow> length e)"

fun trimLeftSpace :: "nat \<Rightarrow> string \<Rightarrow> string" where
  "trimLeftSpace 0 s = s"
| "trimLeftSpace (Suc fuel) s =
     (if spaceLen s = 0 then s else trimLeftSpace fuel (drop (spaceLen s) s))"

text \<open>
  Each round removes at least one byte, so \<open>length s\<close> rounds always reach the first
  rune that is no space. The right end is read backwards: a string ends with a space rune
  exactly when its reversal starts with the reversed encoding.
\<close>

definition spaceLenR :: "string \<Rightarrow> nat" where
  "spaceLenR s = (case find (\<lambda>e. suffix e s) unicodeSpaces of None \<Rightarrow> 0 | Some e \<Rightarrow> length e)"

fun trimRightSpace :: "nat \<Rightarrow> string \<Rightarrow> string" where
  "trimRightSpace 0 s = s"
| "trimRightSpace (Suc fuel) s =
     (if spaceLenR s = 0 then s else trimRightSpace fuel (take (length s - spaceLenR s) s))"

definition TrimSpace :: "string \<Rightarrow> string" where
  "TrimSpace s = (let l = trimLeftSpace (length s) s in trimRightSpace (length l) l)"

section \<open>Go \<open>path.Clean\<close>\<close>

text \<open>
  The lexical cleaning of package \<open>path\<close>, as its source runs it: \<open>out\<close> is the buffer
  written so far (\<open>out.w\<close> is its length), \<open>dotdot\<close> the index below which \<open>..\<close> must not
  backtrack, and the last argument the unread rest of the path.
\<close>

fun backtrack :: "string \<Rightarrow> nat \<Rightarrow> nat \<Rightarrow> nat" where
  "backtrack out dotdot w =
     (if w > dotdot \<and> out ! w \<noteq> CHR ''/'' then backtrack out dotdot (w - 1) else w)"

declare backtrack.simps [simp del]

function cleanLoop :: "bool \<Rightarrow> nat \<Rightarrow> string \<Rightarrow> string \<Rightarrow> string" where
  "cleanLoop rooted dotdot out [] = out"
| "cleanLoop rooted dotdot out (c # rest) =
     (if c = CHR ''/'' then cleanLoop rooted dotdot out rest
      else if c = CHR ''.'' \<and> (rest = [] \<or> hd rest = CHR ''/'')
      then cleanLoop rooted dotdot out rest
      else if c = CHR ''.'' \<and> prefix ''.'' rest \<and> (tl rest = [] \<or> hd (tl rest) = CHR ''/'')
      then (if length out > dotdot
            then cleanLoop rooted dotdot
                   (take (backtrack out dotdot (length out - 1)) out) (tl rest)
            else if \<not> rooted
            then cleanLoop rooted (length ((if out \<noteq> [] then out @ ''/'' else out) @ ''..''))
                   ((if out \<noteq> [] then out @ ''/'' else out) @ ''..'') (tl rest)
            else cleanLoop rooted dotdot out (tl rest))
      else cleanLoop rooted dotdot
             ((if rooted \<and> length out \<noteq> 1 \<or> \<not> rooted \<and> out \<noteq> [] then out @ ''/'' else out)
                @ c # takeWhile (\<lambda>x. x \<noteq> CHR ''/'') rest)
             (dropWhile (\<lambda>x. x \<noteq> CHR ''/'') rest))"
  by pat_completeness auto
termination
  by (relation "measure (\<lambda>(rooted, dotdot, out, p). length p)")
     (simp_all add: less_Suc_eq_le length_dropWhile_le)

definition Clean :: "string \<Rightarrow> string" where
  "Clean p =
     (if p = [] then ''.''
      else let rooted = (hd p = CHR ''/'');
               out = (if rooted then cleanLoop True 1 ''/'' (tl p) else cleanLoop False 0 [] p)
           in if out = [] then ''.'' else out)"

section \<open>The data model (model.go)\<close>

text \<open>\<open>Action\<close> is a \<open>uint8\<close>; the three named values are 0, 1 and 2.\<close>

type_synonym Action = "8 word"

definition ActionUnknown :: Action where "ActionUnknown = 0"
definition ActionExclude :: Action where "ActionExclude = 1"
definition ActionInclude :: Action where "ActionInclude = 2"

definition valid :: "Action \<Rightarrow> bool" where
  "valid a \<longleftrightarrow> a = ActionExclude \<or> a = ActionInclude"

record Rule =
  Pattern :: string
  Action :: Action

record MatcherOptions =
  CaseInsensitive :: bool
  DefaultAction :: Action

record MatchResult =
  Included :: bool
  Matched :: bool
  RuleIndex :: int

definition applyDefaults :: "MatcherOptions \<Rightarrow> MatcherOptions" where
  "applyDefaults opts =
     (if \<not> valid (DefaultAction opts) then opts\<lparr>DefaultAction := ActionInclude\<rparr> else opts)"

text \<open>
  The sentinel errors. An error that wraps a sentinel with a message is the sentinel;
  an error of the operating system or of the line scanner carries its text.
\<close>

datatype error =
    ErrInvalidRule
  | ErrInvalidPattern
  | ErrInvalidRulesFileName
  | ErrInvalidEntryName
  | ErrNilProvider
  | ErrPathOutsideRoot
  | ErrRulesPathOutsideRoot
  | ErrTooLong
  | ErrIO string

section \<open>Path normalization (path.go)\<close>

definition bslash :: char where
  "bslash = CHR 0x5C"

definition isSimpleNormalizedPath :: "string \<Rightarrow> bool" where
  "isSimpleNormalizedPath p \<longleftrightarrow>
     \<not> (p = [] \<or> p = ''.'' \<or> p = ''..'' \<or>
        HasPrefix p ''/'' \<or> HasSuffix p ''/'' \<or>
        HasPrefix p ''./'' \<or> HasPrefix p ''../'' \<or>
        Contains p ''//'' \<or> Contains p ''/./'' \<or> Contains p ''/../'' \<or>
        HasSuffix p ''/..'')"

definition normalizePath :: "string \<Rightarrow> string" where
  "normalizePath raw0 =
     (let raw = TrimSpace raw0;
          raw = (if Contains raw [bslash] then ReplaceAll raw [bslash] ''/'' else raw);
          raw = TrimPrefix raw ''./'';
          raw = TrimPrefix raw ''/''
      in if raw = [] then []
         else if isSimpleNormalizedPath raw then raw
         else let raw = Clean (''/'' @ raw);
                  raw = TrimPrefix raw ''/''
              in if raw = ''.'' then [] else TrimSuffix raw ''/'')"

definition normalizePattern :: "string \<Rightarrow> string" where
  "normalizePattern raw = ReplaceAll (TrimSpace raw) [bslash] ''/''"

definition isUpper :: "char \<Rightarrow> bool" where
  "isUpper c \<longleftrightarrow> 65 \<le> (of_char c :: nat) \<and> (of_char c :: nat) \<le> 90"

definition lowerByte :: "char \<Rightarrow> char" where
  "lowerByte c = (if isUpper c then char_of (of_char c + (32 :: nat)) else c)"

text \<open>The outer loop looks for the first upper-case byte, the inner one lowers the rest.\<close>

fun asciiLower :: "string \<Rightarrow> string" where
  "asciiLower [] = []"
| "asciiLower (c # cs) = (if isUpper c then map lowerByte (c # cs) else c # asciiLower cs)"

section \<open>The regular-expression engine\<close>

text \<open>
  Package \<open>regexp\<close> is not part of the engine. A compiled expression is kept as its
  source text; the library is a parameter that says which sources compile and which
  strings a compiled source matches (\<open>Regexp.MatchString\<close>).
\<close>

record regexp =
  compiles :: "string \<Rightarrow> bool"
  MatchString :: "string \<Rightarrow> string \<Rightarrow> bool"

section \<open>Pattern compilation (pattern.go)\<close>

record segmentPattern =
  text' :: string
  wildcard :: bool

text \<open>A \<open>*regexp.Regexp\<close> field is \<open>None\<close> when the pointer is nil.\<close>

record compiledRule =
  componentRE :: "string option"
  componentExact :: string
  componentGlob :: segmentPattern
  pathExact :: string
  pathSegments :: "segmentPattern list"
  pathPrefixSegments :: "segmentPattern list"
  pathRE :: "string option"
  pathDirRE :: "string option"
  source :: Rule
  anchored :: bool
  dirOnly :: bool
  hasSlash :: bool

definition findCharClassEnd :: "string \<Rightarrow> nat \<Rightarrow> nat option" where
  "findCharClassEnd pat start =
     (if start \<ge> length pat \<or> pat ! start \<noteq> CHR ''['' then None
      else let idx = start + 1;
               idx = (if idx < length pat \<and> (pat ! idx = CHR ''!'' \<or> pat ! idx = CHR ''^'')
                      then idx + 1 else idx);
               idx = (if idx < length pat \<and> pat ! idx = CHR '']'' then idx + 1 else idx)
           in map_option (\<lambda>k. idx + k) (IndexByte (drop idx pat) CHR '']''))"

definition patternHasGlobMeta :: "string \<Rightarrow> bool" where
  "patternHasGlobMeta pattern \<longleftrightarrow>
     list_ex (\<lambda>i. pattern ! i = CHR ''*'' \<or> pattern ! i = CHR ''?'' \<or>
                   (pattern ! i = CHR ''['' \<and> findCharClassEnd pattern i \<noteq> None))
             [0..<length pattern]"

definition patternHasCharClass :: "string \<Rightarrow> bool" where
  "patternHasCharClass pattern \<longleftrightarrow>
     list_ex (\<lambda>i. pattern ! i = CHR ''['' \<and> findCharClassEnd pattern i \<noteq> None)
             [0..<length pattern]"

definition canUseSimplePathSegments :: "string \<Rightarrow> bool" where
  "canUseSimplePathSegments pattern \<longleftrightarrow>
     (if pattern = [] then False
      else if Contains pattern ''**'' then False
      else \<not> patternHasCharClass pattern)"

definition newSegmentPattern :: "string \<Rightarrow> segmentPattern" where
  "newSegmentPattern pattern = \<lparr>text' = pattern, wildcard = ContainsAny pattern ''*?''\<rparr>"

text \<open>
  \<open>compilePathSegments\<close> cuts the pattern at every \<open>/\<close>: \<open>cur\<close> holds the bytes read
  since the last cut (\<open>pattern[start:i]\<close>).
\<close>

fun splitSlash :: "string \<Rightarrow> string \<Rightarrow> string list" where
  "splitSlash cur [] = [cur]"
| "splitSlash cur (c # cs) =
     (if c = CHR ''/'' then cur # splitSlash [] cs else splitSlash (cur @ [c]) cs)"

definition compilePathSegments :: "string \<Rightarrow> segmentPattern list" where
  "compilePathSegments pattern = map newSegmentPattern (splitSlash [] pattern)"

text \<open>
  \<open>regexEscapeByte\<close> returns \<open>string(c)\<close> for a byte \<open>c\<close>: the conversion reads the byte as
  the code point of that number, so a byte of 0x80 or more becomes the two bytes of its
  UTF-8 encoding.
\<close>

definition byteToString :: "char \<Rightarrow> string" where
  "byteToString c =
     (if (of_char c :: nat) < 128 then [c]
      else [char_of (192 + (of_char c :: nat) div 64), char_of (128 + (of_char c :: nat) mod 64)])"

definition regexEscapeByte :: "char \<Rightarrow> string" where
  "regexEscapeByte c =
     (if c \<in> set ''.+()|{}[]^$'' \<or> c = bslash then bslash # byteToString c
      else byteToString c)"

text \<open>
  \<open>appendCharClassRegex\<close>: the text appended to the builder and the index of the closing
  bracket, or \<open>None\<close> when no class starts here.
\<close>

definition appendCharClassRegex :: "string \<Rightarrow> nat \<Rightarrow> (nat \<times> string) option" where
  "appendCharClassRegex pat start =
     (case findCharClassEnd pat start of
        None \<Rightarrow> None
      | Some e \<Rightarrow>
          let idx = start + 1;
              neg = (if idx < e \<and> pat ! idx = CHR ''!'' then ''^''
                     else if idx < e \<and> pat ! idx = CHR ''^'' then [bslash, CHR ''^'']
                     else []);
              idx = (if idx < e \<and> (pat ! idx = CHR ''!'' \<or> pat ! idx = CHR ''^'')
                     then idx + 1 else idx);
              lead = (if idx < e \<and> pat ! idx = CHR '']'' then '']'' else []);
              idx = (if idx < e \<and> pat ! idx = CHR '']'' then idx + 1 else idx);
              body = concat (map (\<lambda>c. if c = bslash then [bslash, bslash] else [c])
                               (take (e - idx) (drop idx pat)))
          in Some (e, ''['' @ neg @ lead @ body @ '']''))"

lemma IndexByte_less: "IndexByte s b = Some k \<Longrightarrow> k < length s"
  by (induction s arbitrary: k) (auto split: if_splits)

lemma findCharClassEnd_greater: "findCharClassEnd pat start = Some e \<Longrightarrow> start < e \<and> e < length pat"
  by (auto simp: findCharClassEnd_def Let_def split: if_splits dest!: IndexByte_less)

lemma appendCharClassRegex_greater:
  "appendCharClassRegex pat start = Some (e, t) \<Longrightarrow> start < e \<and> e < length pat"
  by (auto simp: appendCharClassRegex_def Let_def split: option.splits
           dest: findCharClassEnd_greater)

function globToRegexComponentFrom :: "string \<Rightarrow> nat \<Rightarrow> string" where
  "globToRegexComponentFrom pat i =
     (if i \<ge> length pat then []
      else case appendCharClassRegex pat i of
          Some (next, cls) \<Rightarrow> cls @ globToRegexComponentFrom pat (next + 1)
        | None \<Rightarrow>
            if pat ! i = CHR ''*''
            then (if i + 1 < length pat \<and> pat ! (i + 1) = CHR ''*''
                  then ''[^/]*'' @ globToRegexComponentFrom pat (i + 2)
                  else ''[^/]*'' @ globToRegexComponentFrom pat (i + 1))
            else if pat ! i = CHR ''?''
            then ''[^/]'' @ globToRegexComponentFrom pat (i + 1)
            else regexEscapeByte (pat ! i) @ globToRegexComponentFrom pat (i + 1))"
  by pat_completeness auto
termination
  by (relation "measure (\<lambda>(pat, i). length pat - i)")
     (auto dest: appendCharClassRegex_greater)

declare globToRegexComponentFrom.simps [simp del]

definition globToRegexComponent :: "string \<Rightarrow> string" where
  "globToRegexComponent pat = globToRegexComponentFrom pat 0"

function globToRegexPathFrom :: "string \<Rightarrow> nat \<Rightarrow> string" where
  "globToRegexPathFrom pat i =
     (if i \<ge> length pat then []
      else if pat ! i = CHR ''*'' \<and> i + 2 < length pat \<and> pat ! (i + 1) = CHR ''*''
              \<and> pat ! (i + 2) = CHR ''/''
      then ''(?:.*/)?'' @ globToRegexPathFrom pat (i + 3)
      else case appendCharClassRegex pat i of
          Some (next, cls) \<Rightarrow> cls @ globToRegexPathFrom pat (next + 1)
        | None \<Rightarrow>
            if pat ! i = CHR ''*''
            then (if i + 1 < length pat \<and> pat ! (i + 1) = CHR ''*''
                  then ''.*'' @ globToRegexPathFrom pat (i + 2)
                  else ''[^/]*'' @ globToRegexPathFrom pat (i + 1))
            else if pat ! i = CHR ''?''
            then ''[^/]'' @ globToRegexPathFrom pat (i + 1)
            else regexEscapeByte (pat ! i) @ globToRegexPathFrom pat (i + 1))"
  by pat_completeness auto
termination
  by (relation "measure (\<lambda>(pat, i). length pat - i)")
     (auto dest: appendCharClassRegex_greater)

declare globToRegexPathFrom.simps [simp del]

definition globToRegexPath :: "string \<Rightarrow> string" where
  "globToRegexPath pat = globToRegexPathFrom pat 0"

text \<open>The zero value of the struct, which \<open>compileRule\<close> fills in.\<close>

definition zeroRule :: compiledRule where
  "zeroRule =
     \<lparr>componentRE = None, componentExact = [],
      componentGlob = \<lparr>text' = [], wildcard = False\<rparr>,
      pathExact = [], pathSegments = [], pathPrefixSegments = [],
      pathRE = None, pathDirRE = None,
      source = \<lparr>Pattern = [], Action = ActionUnknown\<rparr>,
      anchored = False, dirOnly = False, hasSlash = False\<rparr>"

definition compileRule :: "regexp \<Rightarrow> Rule \<Rightarrow> bool \<Rightarrow> error + compiledRule" where
  "compileRule rx rule caseInsensitive =
     (if \<not> valid (Action rule) then Inl ErrInvalidRule
      else
        let pattern = normalizePattern (Pattern rule);
            pattern = (if caseInsensitive then asciiLower pattern else pattern)
        in
        if pattern = [] then Inl ErrInvalidPattern
        else
          let cr = zeroRule\<lparr>source := rule,
                            anchored := HasPrefix pattern ''/'',
                            dirOnly := HasSuffix pattern ''/''\<rparr>;
              pattern = TrimPrefix pattern ''/'';
              pattern = TrimSuffix pattern ''/'';
              pattern = Trim pattern ''/''
          in
          if pattern = [] then Inl ErrInvalidPattern
          else
            let cr = cr\<lparr>hasSlash := Contains pattern ''/'' \<or> anchored cr\<rparr>;
                hasMeta = patternHasGlobMeta pattern;
                hasCharClass = patternHasCharClass pattern
            in
            if \<not> hasSlash cr then
              (if \<not> hasMeta then Inr (cr\<lparr>componentExact := pattern\<rparr>)
               else if \<not> hasCharClass
               then Inr (cr\<lparr>componentGlob := newSegmentPattern pattern\<rparr>)
               else if compiles rx (''^'' @ globToRegexComponent pattern @ ''$'')
               then Inr (cr\<lparr>componentRE := Some (''^'' @ globToRegexComponent pattern @ ''$'')\<rparr>)
               else Inl ErrInvalidPattern)
            else if \<not> hasMeta then Inr (cr\<lparr>pathExact := pattern\<rparr>)
            else if snd (CutSuffix pattern ''/**'') \<and> fst (CutSuffix pattern ''/**'') \<noteq> []
                    \<and> canUseSimplePathSegments (fst (CutSuffix pattern ''/**''))
            then Inr (cr\<lparr>pathPrefixSegments :=
                          compilePathSegments (fst (CutSuffix pattern ''/**''))\<rparr>)
            else if canUseSimplePathSegments pattern
            then Inr (cr\<lparr>pathSegments := compilePathSegments pattern\<rparr>)
            else
              let body = globToRegexPath pattern;
                  pre = (if anchored cr then ''^'' else ''(?:^|.*/)'')
              in
              if dirOnly cr then
                (if compiles rx (pre @ body @ ''(?:/.*)?$'')
                 then Inr (cr\<lparr>pathDirRE := Some (pre @ body @ ''(?:/.*)?$'')\<rparr>)
                 else Inl ErrInvalidPattern)
              else
                (if compiles rx (pre @ body @ ''$'')
                 then Inr (cr\<lparr>pathRE := Some (pre @ body @ ''$'')\<rparr>)
                 else Inl ErrInvalidPattern))"

section \<open>Matching (pattern.go)\<close>

text \<open>
  \<open>matchSimpleWildcard\<close>: the two-pointer loop. \<open>starPattern\<close> is \<open>None\<close> for \<open>-1\<close>.
  The first function is the loop over the input, the second the final loop that skips
  trailing stars.
\<close>

function wildcardLoop :: "string \<Rightarrow> string \<Rightarrow> nat \<Rightarrow> nat \<Rightarrow> nat option \<Rightarrow> nat \<Rightarrow> nat option" where
  "wildcardLoop pattern input pIdx sIdx starPattern starInput =
     (if sIdx < length input then
        (if pIdx < length pattern \<and> (pattern ! pIdx = CHR ''?'' \<or> pattern ! pIdx = input ! sIdx)
         then wildcardLoop pattern input (pIdx + 1) (sIdx + 1) starPattern starInput
         else if pIdx < length pattern \<and> pattern ! pIdx = CHR ''*''
         then wildcardLoop pattern input (pIdx + 1) sIdx (Some pIdx) sIdx
         else case starPattern of
             Some sp \<Rightarrow> wildcardLoop pattern input (sp + 1) (starInput + 1) starPattern (starInput + 1)
           | None \<Rightarrow> None)
      else Some pIdx)"
  by pat_completeness auto
termination
  by (relation "measures [\<lambda>(pattern, input, pIdx, sIdx, starPattern, starInput).
                              length input - min starInput sIdx,
                          \<lambda>(pattern, input, pIdx, sIdx, starPattern, starInput).
                              length pattern - pIdx]")
     auto

declare wildcardLoop.simps [simp del]

definition matchSimpleWildcard :: "string \<Rightarrow> string \<Rightarrow> bool" where
  "matchSimpleWildcard pattern input =
     (case wildcardLoop pattern input 0 0 None 0 of
        None \<Rightarrow> False
      | Some pIdx \<Rightarrow>
          pIdx + length (takeWhile (\<lambda>c. c = CHR ''*'') (drop pIdx pattern)) = length pattern)"

definition matchSegmentPattern :: "segmentPattern \<Rightarrow> string \<Rightarrow> bool" where
  "matchSegmentPattern pattern segment =
     (if \<not> wildcard pattern then segment = text' pattern
      else matchSimpleWildcard (text' pattern) segment)"

text \<open>
  \<open>matchPathSegmentsAt\<close>: the end index and whether the segments matched. \<open>e\<close> is the
  end of the candidate segment that starts at \<open>index\<close>.
\<close>

fun segmentsLoop :: "segmentPattern list \<Rightarrow> string \<Rightarrow> nat \<Rightarrow> nat \<times> bool" where
  "segmentsLoop [] candidate index = (index, True)"
| "segmentsLoop (p # ps) candidate index =
     (let e = index + length (takeWhile (\<lambda>c. c \<noteq> CHR ''/'') (drop index candidate)) in
      if e = index then (0, False)
      else if \<not> matchSegmentPattern p (take (e - index) (drop index candidate)) then (0, False)
      else if ps = [] then (e, True)
      else if e \<ge> length candidate \<or> candidate ! e \<noteq> CHR ''/'' then (0, False)
      else segmentsLoop ps candidate (e + 1))"

definition matchPathSegmentsAt :: "segmentPattern list \<Rightarrow> string \<Rightarrow> nat \<Rightarrow> nat \<times> bool" where
  "matchPathSegmentsAt pattern candidate start =
     (if start \<ge> length candidate then (0, False) else segmentsLoop pattern candidate start)"

function matchPathSegmentsUnanchoredFrom :: "segmentPattern list \<Rightarrow> string \<Rightarrow> bool \<Rightarrow> nat \<Rightarrow> bool" where
  "matchPathSegmentsUnanchoredFrom pattern candidate dirOnly0 start =
     (let (e, ok) = matchPathSegmentsAt pattern candidate start in
      if ok \<and> (if dirOnly0
                then e = length candidate \<or> (e < length candidate \<and> candidate ! e = CHR ''/'')
                else e = length candidate)
      then True
      else case IndexByte (drop start candidate) CHR ''/'' of
          None \<Rightarrow> False
        | Some nextSlash \<Rightarrow>
            matchPathSegmentsUnanchoredFrom pattern candidate dirOnly0 (start + nextSlash + 1))"
  by pat_completeness auto
termination
  by (relation "measure (\<lambda>(pattern, candidate, dirOnly0, start). length candidate - start)")
     (auto dest!: IndexByte_less)

declare matchPathSegmentsUnanchoredFrom.simps [simp del]

definition matchPathSegmentsUnanchored :: "segmentPattern list \<Rightarrow> string \<Rightarrow> bool \<Rightarrow> bool" where
  "matchPathSegmentsUnanchored pattern candidate dirOnly0 =
     matchPathSegmentsUnanchoredFrom pattern candidate dirOnly0 0"

definition matchPathSegments :: "segmentPattern list \<Rightarrow> string \<Rightarrow> bool \<Rightarrow> bool \<Rightarrow> bool" where
  "matchPathSegments pattern candidate anchored0 dirOnly0 =
     (if pattern = [] \<or> candidate = [] then False
      else if anchored0 then
        (let (e, ok) = matchPathSegmentsAt pattern candidate 0 in
         if \<not> ok then False
         else if dirOnly0
         then e = length candidate \<or> (e < length candidate \<and> candidate ! e = CHR ''/'')
         else e = length candidate)
      else matchPathSegmentsUnanchored pattern candidate dirOnly0)"

function prefixDoubleStarFrom :: "segmentPattern list \<Rightarrow> string \<Rightarrow> nat \<Rightarrow> bool" where
  "prefixDoubleStarFrom pre candidate start =
     (let (e, ok) = matchPathSegmentsAt pre candidate start in
      if ok \<and> e < length candidate \<and> candidate ! e = CHR ''/'' then True
      else case IndexByte (drop start candidate) CHR ''/'' of
          None \<Rightarrow> False
        | Some nextSlash \<Rightarrow> prefixDoubleStarFrom pre candidate (start + nextSlash + 1))"
  by pat_completeness auto
termination
  by (relation "measure (\<lambda>(pre, candidate, start). length candidate - start)")
     (auto dest!: IndexByte_less)

declare prefixDoubleStarFrom.simps [simp del]

definition matchPathPrefixDoubleStar :: "segmentPattern list \<Rightarrow> string \<Rightarrow> bool \<Rightarrow> bool" where
  "matchPathPrefixDoubleStar pre candidate anchored0 =
     (if pre = [] \<or> candidate = [] then False
      else if anchored0 then
        (let (e, ok) = matchPathSegmentsAt pre candidate 0 in
         ok \<and> e < length candidate \<and> candidate ! e = CHR ''/'')
      else prefixDoubleStarFrom pre candidate 0)"

function containsDirPathFrom :: "string \<Rightarrow> string \<Rightarrow> bool \<Rightarrow> nat \<Rightarrow> bool" where
  "containsDirPathFrom pattern candidate isDir start =
     (if start < length candidate then
        (case Index (drop start candidate) pattern of
           None \<Rightarrow> False
         | Some k \<Rightarrow>
             let idx = k + start;
                 beforeOK = (idx = 0 \<or> candidate ! (idx - 1) = CHR ''/'');
                 after = idx + length pattern;
                 afterOK = (after = length candidate \<or> candidate ! after = CHR ''/'')
             in if beforeOK \<and> afterOK \<and> (after < length candidate \<or> isDir) then True
                else containsDirPathFrom pattern candidate isDir (idx + 1))
      else False)"
  by pat_completeness auto
termination
  by (relation "measure (\<lambda>(pattern, candidate, isDir, start). length candidate - start)")
     auto

declare containsDirPathFrom.simps [simp del]

definition containsDirPath :: "string \<Rightarrow> string \<Rightarrow> bool \<Rightarrow> bool" where
  "containsDirPath pattern candidate isDir = containsDirPathFrom pattern candidate isDir 0"

definition matchExactPathRule :: "string \<Rightarrow> string \<Rightarrow> bool \<Rightarrow> bool \<Rightarrow> bool \<Rightarrow> bool" where
  "matchExactPathRule pattern candidate isDir anchored0 dirOnly0 =
     (if pattern = [] \<or> candidate = [] then False
      else if anchored0 then
        (if \<not> dirOnly0 then candidate = pattern
         else candidate = pattern \<or> HasPrefix candidate (pattern @ ''/''))
      else if \<not> dirOnly0 then candidate = pattern \<or> HasSuffix candidate (''/'' @ pattern)
      else containsDirPath pattern candidate isDir)"

text \<open>
  The three dir-only component matchers run the same loop over the components of the
  candidate and differ in the test applied to a component, which is the first argument
  here: \<open>start\<close> is where the current component begins, \<open>i\<close> the loop index.
\<close>

function dirOnlyComponentLoop :: "(string \<Rightarrow> bool) \<Rightarrow> string \<Rightarrow> bool \<Rightarrow> nat \<Rightarrow> nat \<Rightarrow> bool" where
  "dirOnlyComponentLoop test candidate isDir start i =
     (if i \<le> length candidate then
        (if i \<noteq> length candidate \<and> candidate ! i \<noteq> CHR ''/''
         then dirOnlyComponentLoop test candidate isDir start (i + 1)
         else if i > start \<and> i = length candidate \<and> \<not> isDir then False
         else if i > start \<and> test (take (i - start) (drop start candidate)) then True
         else dirOnlyComponentLoop test candidate isDir (i + 1) (i + 1))
      else False)"
  by pat_completeness auto
termination
  by (relation "measure (\<lambda>(test, candidate, isDir, start, i). Suc (length candidate) - i)")
     auto

declare dirOnlyComponentLoop.simps [simp del]

definition matchDirOnlyComponentExact :: "string \<Rightarrow> string \<Rightarrow> bool \<Rightarrow> bool" where
  "matchDirOnlyComponentExact component candidate isDir =
     (if component = [] \<or> candidate = [] then False
      else dirOnlyComponentLoop (\<lambda>seg. seg = component) candidate isDir 0 0)"

definition matchDirOnlyComponentPattern :: "segmentPattern \<Rightarrow> string \<Rightarrow> bool \<Rightarrow> bool" where
  "matchDirOnlyComponentPattern pattern candidate isDir =
     (if text' pattern = [] \<or> candidate = [] then False
      else dirOnlyComponentLoop (matchSegmentPattern pattern) candidate isDir 0 0)"

definition matchDirOnlyComponent :: "regexp \<Rightarrow> string option \<Rightarrow> string \<Rightarrow> bool \<Rightarrow> bool" where
  "matchDirOnlyComponent rx re candidate isDir =
     (case re of
        None \<Rightarrow> False
      | Some src \<Rightarrow>
          if candidate = [] then False
          else dirOnlyComponentLoop (MatchString rx src) candidate isDir 0 0)"

definition pathBase :: "string \<Rightarrow> string" where
  "pathBase p = (case LastIndexByte p CHR ''/'' of Some i \<Rightarrow> drop (i + 1) p | None \<Rightarrow> p)"

definition matches :: "regexp \<Rightarrow> compiledRule \<Rightarrow> string \<Rightarrow> bool \<Rightarrow> bool" where
  "matches rx r candidate isDir =
     (if candidate = [] then False
      else if hasSlash r then
        (if pathExact r \<noteq> []
         then matchExactPathRule (pathExact r) candidate isDir (anchored r) (dirOnly r)
         else if pathPrefixSegments r \<noteq> []
         then matchPathPrefixDoubleStar (pathPrefixSegments r) candidate (anchored r)
         else if pathSegments r \<noteq> []
         then matchPathSegments (pathSegments r) candidate (anchored r) (dirOnly r)
         else if dirOnly r
         then (case pathDirRE r of None \<Rightarrow> False | Some src \<Rightarrow> MatchString rx src candidate)
         else (case pathRE r of None \<Rightarrow> False | Some src \<Rightarrow> MatchString rx src candidate))
      else if componentExact r \<noteq> [] then
        (if \<not> dirOnly r then pathBase candidate = componentExact r
         else matchDirOnlyComponentExact (componentExact r) candidate isDir)
      else if text' (componentGlob r) \<noteq> [] then
        (if \<not> dirOnly r then matchSegmentPattern (componentGlob r) (pathBase candidate)
         else matchDirOnlyComponentPattern (componentGlob r) candidate isDir)
      else case componentRE r of
          None \<Rightarrow> False
        | Some src \<Rightarrow>
            if \<not> dirOnly r then MatchString rx src (pathBase candidate)
            else matchDirOnlyComponent rx (Some src) candidate isDir)"

section \<open>The matcher\<close>

record Matcher =
  compiled :: "compiledRule list"
  defaultAction :: Action
  caseInsensitive :: bool

text \<open>The loop of \<open>NewMatcher\<close>: \<open>acc\<close> is the slice \<open>compiled\<close> built so far.\<close>

fun compileRules :: "regexp \<Rightarrow> bool \<Rightarrow> Rule list \<Rightarrow> compiledRule list \<Rightarrow> error + compiledRule list" where
  "compileRules rx ci [] acc = Inr acc"
| "compileRules rx ci (rule # rules) acc =
     (case compileRule rx rule ci of
        Inl err \<Rightarrow> Inl err
      | Inr cr \<Rightarrow> compileRules rx ci rules (acc @ [cr]))"

definition NewMatcher :: "regexp \<Rightarrow> Rule list \<Rightarrow> MatcherOptions \<Rightarrow> error + Matcher" where
  "NewMatcher rx rules opts0 =
     (let opts = applyDefaults opts0 in
      case compileRules rx (CaseInsensitive opts) rules [] of
        Inl err \<Rightarrow> Inl err
      | Inr cs \<Rightarrow> Inr \<lparr>compiled = cs, defaultAction = DefaultAction opts,
                        caseInsensitive = CaseInsensitive opts\<rparr>)"

text \<open>The loop of \<open>Decide\<close> over \<open>m.compiled[i:]\<close>, with the result so far.\<close>

fun decideLoop :: "regexp \<Rightarrow> compiledRule list \<Rightarrow> nat \<Rightarrow> string \<Rightarrow> bool \<Rightarrow> MatchResult \<Rightarrow> MatchResult" where
  "decideLoop rx [] i candidate isDir res = res"
| "decideLoop rx (r # rs) i candidate isDir res =
     (if \<not> matches rx r candidate isDir then decideLoop rx rs (i + 1) candidate isDir res
      else decideLoop rx rs (i + 1) candidate isDir
             (res\<lparr>Matched := True, RuleIndex := int i,
                  Included := (Action (source r) = ActionInclude)\<rparr>))"

definition Decide :: "regexp \<Rightarrow> Matcher \<Rightarrow> string \<Rightarrow> bool \<Rightarrow> MatchResult" where
  "Decide rx m path isDir =
     (let candidate = normalizePath path;
          candidate = (if caseInsensitive m then asciiLower candidate else candidate);
          res = \<lparr>Included = (defaultAction m = ActionInclude), Matched = False, RuleIndex = - 1\<rparr>
      in decideLoop rx (compiled m) 0 candidate isDir res)"

definition Matcher_Included :: "regexp \<Rightarrow> Matcher \<Rightarrow> string \<Rightarrow> bool \<Rightarrow> bool" where
  "Matcher_Included rx m path isDir = Included (Decide rx m path isDir)"

definition Matcher_Excluded :: "regexp \<Rightarrow> Matcher \<Rightarrow> string \<Rightarrow> bool \<Rightarrow> bool" where
  "Matcher_Excluded rx m path isDir = (\<not> Included (Decide rx m path isDir))"

section \<open>Candidate normalization in the words of the specification\<close>

text \<open>
  ASCII case folding lowers \<open>A\<close> to \<open>Z\<close> only; every other byte is preserved.
\<close>

definition specLower :: "char \<Rightarrow> char" where
  "specLower c =
     (case map_of (zip ''ABCDEFGHIJKLMNOPQRSTUVWXYZ'' ''abcdefghijklmnopqrstuvwxyz'') c of
        Some l \<Rightarrow> l
      | None \<Rightarrow> c)"

text \<open>
  The components of a path are the runs between its slashes; a path with \<open>n\<close> slashes has
  \<open>n + 1\<close> components, of which some may be empty.
\<close>

function components :: "string \<Rightarrow> string list" where
  "components s =
     (case dropWhile (\<lambda>c. c \<noteq> CHR ''/'') s of
        [] \<Rightarrow> [takeWhile (\<lambda>c. c \<noteq> CHR ''/'') s]
      | _ # rest \<Rightarrow> takeWhile (\<lambda>c. c \<noteq> CHR ''/'') s # components rest)"
  by pat_completeness auto
termination
proof (relation "measure length")
  show "wf (measure length)" by simp
next
  fix s :: string and x rest
  assume "dropWhile (\<lambda>c. c \<noteq> CHR ''/'') s = x # rest"
  then have "length (x # rest) \<le> length s"
    using length_dropWhile_le [of "\<lambda>c. c \<noteq> CHR ''/''" s] by simp
  then show "(rest, s) \<in> measure length" by simp
qed

declare components.simps [simp del]

text \<open>
  Lexical cleaning of a rooted path: empty components and \<open>.\<close> are dropped, \<open>..\<close> removes
  the component before it and is dropped at the root; the components left are joined with
  slashes.
\<close>

definition resolveStep :: "string list \<Rightarrow> string \<Rightarrow> string list" where
  "resolveStep stack c =
     (if c = [] \<or> c = ''.'' then stack else if c = ''..'' then butlast stack else stack @ [c])"

definition resolveDots :: "string list \<Rightarrow> string list" where
  "resolveDots cs = foldl resolveStep [] cs"

fun joinSlash :: "string list \<Rightarrow> string" where
  "joinSlash [] = []"
| "joinSlash [c] = c"
| "joinSlash (c # d # cs) = c @ ''/'' @ joinSlash (d # cs)"

text \<open>
  The fast predicate: the path is already clean. No component is empty (no leading or
  trailing slash, no double slash), none is \<open>..\<close>, none but the last is \<open>.\<close>, and the path is
  not \<open>.\<close> itself.
\<close>

definition alreadyClean :: "string \<Rightarrow> bool" where
  "alreadyClean p \<longleftrightarrow>
     p \<noteq> ''.'' \<and> list_all (\<lambda>c. c \<noteq> [] \<and> c \<noteq> ''..'') (components p) \<and>
     list_all (\<lambda>c. c \<noteq> ''.'') (butlast (components p))"

text \<open>
  Candidate normalization: trim white space; replace backslashes with slashes; strip a
  leading \<open>./\<close> and a leading \<open>/\<close>; an empty path stays empty, an already clean one is
  returned as it is, any other is cleaned lexically as a rooted path and returned without
  the leading slash.
\<close>

definition specNormalizePath :: "string \<Rightarrow> string" where
  "specNormalizePath raw0 =
     (let raw = map (\<lambda>c. if c = bslash then CHR ''/'' else c) (TrimSpace raw0);
          raw = (if prefix ''./'' raw then drop 2 raw else raw);
          raw = (if prefix ''/'' raw then drop 1 raw else raw)
      in if raw = [] then []
         else if alreadyClean raw then raw
         else joinSlash (resolveDots (components raw)))"

text \<open>
  To compare \<open>path.Clean\<close> with this: the buffer \<open>Clean\<close> writes for a rooted path is the
  rendering of a stack of components, each of them non-empty, neither \<open>.\<close> nor \<open>..\<close>, and
  free of slashes.
\<close>

abbreviation (input) notSlash :: "char \<Rightarrow> bool" where
  "notSlash \<equiv> (\<lambda>c. c \<noteq> CHR ''/'')"

definition goodComponent :: "string \<Rightarrow> bool" where
  "goodComponent c \<longleftrightarrow> c \<noteq> [] \<and> c \<noteq> ''.'' \<and> c \<noteq> ''..'' \<and> CHR ''/'' \<notin> set c"

definition render :: "string list \<Rightarrow> string" where
  "render stack = ''/'' @ joinSlash stack"

definition tailComponents :: "string \<Rightarrow> string list" where
  "tailComponents rest = (case rest of [] \<Rightarrow> [] | _ # r \<Rightarrow> components r)"

section \<open>The matching rules in the words of the specification\<close>

text \<open>
  A dir-only exact path pattern occurs in the candidate at offset \<open>i\<close> as a run of full
  slash-separated segments: the pattern stands at \<open>i\<close>, a segment begins at \<open>i\<close>, and the
  occurrence is followed by \<open>/\<close> or, when it ends the candidate, the candidate is a
  directory.
\<close>

definition dirOccurrence :: "string \<Rightarrow> string \<Rightarrow> bool \<Rightarrow> nat \<Rightarrow> bool" where
  "dirOccurrence pattern candidate isDir i \<longleftrightarrow>
     prefix pattern (drop i candidate) \<and>
     (i = 0 \<or> candidate ! (i - 1) = CHR ''/'') \<and>
     (if i + length pattern = length candidate then isDir
      else candidate ! (i + length pattern) = CHR ''/'')"


text \<open>
  For a pattern with a trailing \<open>/**\<close>: the prefix segments match the candidate from
  offset \<open>s\<close> and the byte right after the match is \<open>/\<close>, so that a further component
  follows. An unanchored pattern may start at every slash boundary: at \<open>0\<close> and right
  after a \<open>/\<close>.
\<close>

definition descendantMatchAt :: "segmentPattern list \<Rightarrow> string \<Rightarrow> nat \<Rightarrow> bool" where
  "descendantMatchAt pre candidate s \<longleftrightarrow>
     snd (matchPathSegmentsAt pre candidate s) \<and>
     fst (matchPathSegmentsAt pre candidate s) < length candidate \<and>
     candidate ! fst (matchPathSegmentsAt pre candidate s) = CHR ''/''"

definition slashBoundary :: "string \<Rightarrow> nat \<Rightarrow> bool" where
  "slashBoundary candidate s \<longleftrightarrow> s = 0 \<or> candidate ! (s - 1) = CHR ''/''"

text \<open>
  Wildcards as the specification defines them, for one segment: \<open>*\<close> matches any run of
  bytes other than \<open>/\<close>, \<open>?\<close> matches exactly one byte other than \<open>/\<close>, any other byte
  matches itself.
\<close>

fun globMatch :: "string \<Rightarrow> string \<Rightarrow> bool" where
  "globMatch [] s = (s = [])"
| "globMatch (p # ps) s =
     (if p = CHR ''*''
      then list_ex (\<lambda>k. CHR ''/'' \<notin> set (take k s) \<and> globMatch ps (drop k s)) [0..<Suc (length s)]
      else case s of
          [] \<Rightarrow> False
        | c # cs \<Rightarrow> (if p = CHR ''?'' then c \<noteq> CHR ''/'' \<and> globMatch ps cs
                     else p = c \<and> globMatch ps cs))"

section \<open>Example inputs\<close>

text \<open>
  The examples use no character class, so the regular-expression library is never asked;
  any library does.
\<close>

definition exampleRegexp :: regexp where
  "exampleRegexp = \<lparr>compiles = (\<lambda>_. True), MatchString = (\<lambda>_ _. False)\<rparr>"

definition ignoreRules :: "Rule list" where
  "ignoreRules =
     [\<lparr>Pattern = ''*.tmp'', Action = ActionExclude\<rparr>,
      \<lparr>Pattern = ''keep.tmp'', Action = ActionInclude\<rparr>,
      \<lparr>Pattern = ''build/'', Action = ActionExclude\<rparr>,
      \<lparr>Pattern = ''build/keep.txt'', Action = ActionInclude\<rparr>]"

definition ignoreOptions :: MatcherOptions where
  "ignoreOptions = \<lparr>CaseInsensitive = False, DefaultAction = ActionInclude\<rparr>"

text \<open>A case-insensitive matcher with an upper-case pattern.\<close>

definition foldRules :: "Rule list" where
  "foldRules = [\<lparr>Pattern = ''*.CPP'', Action = ActionExclude\<rparr>]"

definition foldOptions :: MatcherOptions where
  "foldOptions = \<lparr>CaseInsensitive = True, DefaultAction = ActionInclude\<rparr>"

definition brokenRules :: "Rule list" where
  "brokenRules =
     [\<lparr>Pattern = ''*.tmp'', Action = ActionExclude\<rparr>,
      \<lparr>Pattern = '' // '', Action = ActionInclude\<rparr>,
      \<lparr>Pattern = ''keep.tmp'', Action = ActionUnknown\<rparr>]"


section \<open>The rule parser\<close>

text \<open>
  \<open>bufio.Scanner\<close> with \<open>ScanLines\<close>, reading from a string: the input is cut at every
  newline, an empty rest after the last newline is no line, and one trailing carriage
  return is dropped from each line. A line does not fit the scanner's buffer when it has
  \<open>MaxScanTokenSize\<close> bytes or more; the scanner then stops with \<open>ErrTooLong\<close>.
\<close>

definition MaxScanTokenSize :: nat where
  "MaxScanTokenSize = 64 * 1024"

fun rawLines :: "string \<Rightarrow> string \<Rightarrow> string list" where
  "rawLines cur [] = (if cur = [] then [] else [cur])"
| "rawLines cur (c # cs) =
     (if c = CHR 0x0A then cur # rawLines [] cs else rawLines (cur @ [c]) cs)"

definition dropCR :: "string \<Rightarrow> string" where
  "dropCR d = (if d \<noteq> [] \<and> last d = CHR 0x0D then butlast d else d)"

text \<open>The tokens the scanner delivers and the error it ends with, if any.\<close>

fun scanTokens :: "string list \<Rightarrow> string list \<times> error option" where
  "scanTokens [] = ([], None)"
| "scanTokens (l # ls) =
     (if MaxScanTokenSize \<le> length l then ([], Some ErrTooLong)
      else (dropCR l # fst (scanTokens ls), snd (scanTokens ls)))"

function trimTrailingSpaces :: "string \<Rightarrow> string" where
  "trimTrailingSpaces s =
     (if s \<noteq> [] \<and> (last s = CHR '' '' \<or> last s = CHR 0x09) then
        (if length s \<ge> 2 \<and> s ! (length s - 2) = bslash
         then take (length s - 2) s @ drop (length s - 1) s
         else trimTrailingSpaces (take (length s - 1) s))
      else s)"
  by pat_completeness auto
termination
  by (relation "measure length") auto

declare trimTrailingSpaces.simps [simp del]

text \<open>The body of the loop of \<open>ParseRules\<close> for one line: the rule appended, if any.\<close>

definition parseLine :: "string \<Rightarrow> Rule option" where
  "parseLine token =
     (let line = TrimRight token [CHR 0x0D] in
      if line = [] then None
      else let line = trimTrailingSpaces line in
        if line = [] then None
        else if HasPrefix line ''#'' then None
        else let line = (if HasPrefix line [bslash, CHR ''#''] then drop 1 line else line);
                 action = (if HasPrefix line ''!'' then ActionInclude else ActionExclude);
                 line = (if HasPrefix line ''!'' then drop 1 line
                         else if HasPrefix line [bslash, CHR ''!''] then drop 1 line
                         else line)
             in if line = [] then None else Some \<lparr>Pattern = line, Action = action\<rparr>)"

fun parseLoop :: "string list \<Rightarrow> Rule list \<Rightarrow> Rule list" where
  "parseLoop [] rules = rules"
| "parseLoop (token # tokens) rules =
     (case parseLine token of
        None \<Rightarrow> parseLoop tokens rules
      | Some rule \<Rightarrow> parseLoop tokens (rules @ [rule]))"

definition ParseRules :: "string \<Rightarrow> error + Rule list" where
  "ParseRules src =
     (let (tokens, err) = scanTokens (rawLines [] src);
          rules = parseLoop tokens []
      in case err of Some e \<Rightarrow> Inl e | None \<Rightarrow> Inr rules)"

definition ParseRulesString :: "string \<Rightarrow> error + Rule list" where
  "ParseRulesString src = ParseRules src"

text \<open>
  One line of input as claim C6 words it: \<open>a\<close> trailing carriage return is stripped, one;
  trailing spaces and tabs are trimmed unless \<open>the space\<close> is escaped by a backslash, so
  that a backslash protects a space and no tab; then the prefixes.
\<close>

definition isBlank :: "char \<Rightarrow> bool" where
  "isBlank c \<longleftrightarrow> c = CHR '' '' \<or> c = CHR 0x09"

definition linePrefixRule :: "string \<Rightarrow> Rule option" where
  "linePrefixRule line =
     (if line = [] \<or> hd line = CHR ''#'' then None
      else if prefix [bslash, CHR ''#''] line
      then Some \<lparr>Pattern = tl line, Action = ActionExclude\<rparr>
      else if hd line = CHR ''!''
      then (if tl line = [] then None else Some \<lparr>Pattern = tl line, Action = ActionInclude\<rparr>)
      else if prefix [bslash, CHR ''!''] line
      then Some \<lparr>Pattern = tl line, Action = ActionExclude\<rparr>
      else Some \<lparr>Pattern = line, Action = ActionExclude\<rparr>)"

definition claimTrimTrailing :: "string \<Rightarrow> string" where
  "claimTrimTrailing s =
     (let body = rev (dropWhile isBlank (rev s));
          blanks = drop (length body) s
      in if blanks \<noteq> [] \<and> hd blanks = CHR '' '' \<and> body \<noteq> [] \<and> last body = bslash
         then butlast body @ '' '' else body)"

definition claimLineRule :: "string \<Rightarrow> Rule option" where
  "claimLineRule raw =
     linePrefixRule
       (claimTrimTrailing (if raw \<noteq> [] \<and> last raw = CHR 0x0D then butlast raw else raw))"

text \<open>
  The claim amended to what the parser does: every trailing carriage return is
  stripped, and a backslash protects the blank behind it, a space or a tab (the backslash
  goes, the blank is kept, trimming stops). The prefixes are as the claim says: an empty
  line and a comment are skipped, \<open>\#\<close> is a literal \<open>#\<close>, \<open>!\<close> makes an include rule, \<open>\!\<close>
  is a literal \<open>!\<close>, an empty pattern is skipped.
\<close>

definition specTrimTrailing :: "string \<Rightarrow> string" where
  "specTrimTrailing s =
     (let body = rev (dropWhile isBlank (rev s));
          blanks = drop (length body) s
      in if blanks \<noteq> [] \<and> body \<noteq> [] \<and> last body = bslash
         then butlast body @ [hd blanks] else body)"

definition specLineRule :: "string \<Rightarrow> Rule option" where
  "specLineRule raw =
     linePrefixRule (specTrimTrailing (rev (dropWhile (\<lambda>c. c = CHR 0x0D) (rev raw))))"

text \<open>The input of the parser test of the repository (merge\_test.go).\<close>

definition parseExample :: string where
  "parseExample =
     [CHR 0x0A] @ ''# comment'' @ [CHR 0x0A] @ ''*.tmp'' @ [CHR 0x0D, CHR 0x0A] @
     ''!keep.tmp'' @ [CHR 0x0A] @ [bslash] @ ''#literal'' @ [CHR 0x0A] @
     [bslash] @ ''!bang  '' @ [CHR 0x0A] @ ''name'' @ [bslash] @ '' '' @ [CHR 0x0A] @ ''!''"

definition dirExactRule :: Rule where
  "dirExactRule = \<lparr>Pattern = ''cache/tmp/'', Action = ActionExclude\<rparr>"

definition subtreeRule :: Rule where
  "subtreeRule = \<lparr>Pattern = ''assets/group/**'', Action = ActionExclude\<rparr>"

definition starSubtreeRule :: Rule where
  "starSubtreeRule = \<lparr>Pattern = ''a*/**'', Action = ActionExclude\<rparr>"

section \<open>The provider (provider.go)\<close>

text \<open>
  The platform is Unix: \<open>filepath.Separator\<close> is \<open>/\<close>, so \<open>filepath.ToSlash\<close> changes
  nothing and \<open>filepath.IsAbs\<close> asks for a leading \<open>/\<close>.
\<close>

definition IsAbs :: "string \<Rightarrow> bool" where
  "IsAbs p \<longleftrightarrow> HasPrefix p ''/''"

definition ToSlash :: "string \<Rightarrow> string" where
  "ToSlash p = p"

definition cleanRelPath :: "string \<Rightarrow> error + string" where
  "cleanRelPath raw =
     (let trimmed = TrimSpace raw in
      if trimmed = [] then Inl ErrPathOutsideRoot
      else if IsAbs trimmed then Inl ErrPathOutsideRoot
      else let path = ToSlash trimmed in
        if HasPrefix path ''/'' then Inl ErrPathOutsideRoot
        else let path = TrimPrefix path ''./'';
                 path = TrimPrefix path ''/''
             in
          if path = [] then Inl ErrPathOutsideRoot
          else if path = ''.'' \<or> path = ''..'' \<or> HasPrefix path ''../''
          then Inl ErrPathOutsideRoot
          else let path = ReplaceAll path ''/./'' ''/'';
                   path = (if snd (CutPrefix path ''./'') then fst (CutPrefix path ''./'') else path)
               in
            if Contains path ''/../'' \<or> HasSuffix path ''/..'' then Inl ErrPathOutsideRoot
            else let path = normalizePath path in
              if path = [] then Inl ErrPathOutsideRoot else Inr path)"

definition cleanRelDir :: "string \<Rightarrow> error + string" where
  "cleanRelDir raw =
     (let trimmed = TrimSpace raw in
      if trimmed = [] \<or> trimmed = ''.'' then Inr [] else cleanRelPath trimmed)"

definition cleanEntryName :: "string \<Rightarrow> error + string" where
  "cleanEntryName raw =
     (let trimmed = TrimSpace raw in
      if trimmed = [] then Inl ErrInvalidEntryName
      else if IsAbs trimmed then Inl ErrInvalidEntryName
      else let path = ToSlash trimmed in
        if Contains path ''/'' then Inl ErrInvalidEntryName
        else let path = normalizePath path in
          if path = [] \<or> Contains path ''/'' \<or> path = ''.'' \<or> path = ''..''
          then Inl ErrInvalidEntryName
          else Inr path)"

definition pathDir :: "string \<Rightarrow> bool \<Rightarrow> string" where
  "pathDir relPath isDir =
     (if isDir then relPath
      else case LastIndexByte relPath CHR ''/'' of Some i \<Rightarrow> take i relPath | None \<Rightarrow> [])"

text \<open>
  The file system is a parameter: for a directory relative to the provider root, what
  reading its rules file gives. \<open>Inr None\<close> is "no such file", \<open>Inr (Some content)\<close> the
  bytes read, \<open>Inl e\<close> any other failure: a read error, or \<open>ErrRulesPathOutsideRoot\<close> when
  the symlink check is on and the resolved file lies outside the resolved root. The root,
  the file name and the check are fixed with the provider, so they are part of this
  function.
\<close>

type_synonym fileSystem = "string \<Rightarrow> error + string option"

text \<open>
  A cache entry holds the matcher loaded for a directory (nil when it has no rules file)
  or the load error. The lock, the \<open>loading\<close> flag and the wait group order concurrent
  callers; one caller at a time is modelled.
\<close>

record cachedDirMatcher =
  matcher :: "Matcher option"
  err :: "error option"

record providerDirMatcher =
  dirMatcher :: Matcher
  dirPrefix :: string

record Provider =
  baseMatcher :: "Matcher option"
  cache :: "string \<rightharpoonup> cachedDirMatcher"
  matcherOptions :: MatcherOptions
  defaultIncluded :: bool

definition zeroMatchResult :: MatchResult where
  "zeroMatchResult = \<lparr>Included = False, Matched = False, RuleIndex = 0\<rparr>"

definition unwrapCachedDirMatcher :: "cachedDirMatcher \<Rightarrow> error + Matcher option" where
  "unwrapCachedDirMatcher entry =
     (case err entry of Some e \<Rightarrow> Inl e | None \<Rightarrow> Inr (matcher entry))"

definition loadAndCompileDirMatcher :: "regexp \<Rightarrow> fileSystem \<Rightarrow> Provider \<Rightarrow> string \<Rightarrow> error + Matcher option" where
  "loadAndCompileDirMatcher rx fs p relDir =
     (case fs relDir of
        Inl e \<Rightarrow> Inl e
      | Inr None \<Rightarrow> Inr None
      | Inr (Some content) \<Rightarrow>
          (case ParseRules content of
             Inl e \<Rightarrow> Inl e
           | Inr rules \<Rightarrow>
               (case NewMatcher rx rules (matcherOptions p) of
                  Inl e \<Rightarrow> Inl e
                | Inr m \<Rightarrow> Inr (Some m))))"

definition loadDirMatcher :: "regexp \<Rightarrow> fileSystem \<Rightarrow> Provider \<Rightarrow> string \<Rightarrow> (error + Matcher option) \<times> Provider" where
  "loadDirMatcher rx fs p relDir =
     (case cache p relDir of
        Some cached \<Rightarrow> (unwrapCachedDirMatcher cached, p)
      | None \<Rightarrow>
          let loaded = loadAndCompileDirMatcher rx fs p relDir;
              cached = (case loaded of
                          Inl e \<Rightarrow> \<lparr>matcher = None, err = Some e\<rparr>
                        | Inr m \<Rightarrow> \<lparr>matcher = m, err = None\<rparr>)
          in (loaded, p\<lparr>cache := (cache p)(relDir \<mapsto> cached)\<rparr>))"

text \<open>
  \<open>applyDirMatcherDecision\<close>: the error, the updated result (the code writes through the
  pointer \<open>res\<close>) and the provider with its cache.
\<close>

definition applyDirMatcherDecision :: "regexp \<Rightarrow> fileSystem \<Rightarrow> Provider \<Rightarrow> string \<Rightarrow> string \<Rightarrow> bool \<Rightarrow> MatchResult \<Rightarrow> error option \<times> MatchResult \<times> Provider" where
  "applyDirMatcherDecision rx fs p rel normalized isDir res =
     (case loadDirMatcher rx fs p rel of
        (Inl e, p') \<Rightarrow> (Some e, res, p')
      | (Inr None, p') \<Rightarrow> (None, res, p')
      | (Inr (Some m), p') \<Rightarrow>
          if rel \<noteq> [] \<and> normalized = rel then (None, res, p')
          else if rel \<noteq> [] \<and> \<not> HasPrefix normalized (rel @ ''/'') then (None, res, p')
          else
            let candidate = (if rel \<noteq> [] then drop (length (rel @ ''/'')) normalized
                             else normalized);
                decision = Decide rx m candidate isDir
            in if \<not> Matched decision then (None, res, p')
               else (None, res\<lparr>Included := Included decision, Matched := True,
                                 RuleIndex := RuleIndex decision\<rparr>, p'))"

text \<open>
  The calls of \<open>applyDirMatcherDecision\<close> that \<open>Decide\<close> makes one after the other, the
  first error ending them: for the root directory, for the part of \<open>relDir\<close> before each
  of its slashes, and for \<open>relDir\<close> itself.
\<close>

fun applyDirMatcherDecisions :: "regexp \<Rightarrow> fileSystem \<Rightarrow> Provider \<Rightarrow> string list \<Rightarrow> string \<Rightarrow> bool \<Rightarrow> MatchResult \<Rightarrow> error option \<times> MatchResult \<times> Provider" where
  "applyDirMatcherDecisions rx fs p [] normalized isDir res = (None, res, p)"
| "applyDirMatcherDecisions rx fs p (rel # rels) normalized isDir res =
     (case applyDirMatcherDecision rx fs p rel normalized isDir res of
        (Some e, res', p') \<Rightarrow> (Some e, res', p')
      | (None, res', p') \<Rightarrow> applyDirMatcherDecisions rx fs p' rels normalized isDir res')"

definition dirChain :: "string \<Rightarrow> string list" where
  "dirChain relDir =
     [] # (if relDir \<noteq> []
           then map (\<lambda>i. take i relDir) (filter (\<lambda>i. relDir ! i = CHR ''/'') [0..<length relDir])
                @ [relDir]
           else [])"

text \<open>The result when only the base matcher has been asked.\<close>

definition baseDecision :: "regexp \<Rightarrow> Provider \<Rightarrow> string \<Rightarrow> bool \<Rightarrow> MatchResult" where
  "baseDecision rx p path isDir =
     (let res = \<lparr>Included = defaultIncluded p, Matched = False, RuleIndex = - 1\<rparr> in
      case baseMatcher p of
        None \<Rightarrow> res
      | Some bm \<Rightarrow> (if Matched (Decide rx bm path isDir) then Decide rx bm path isDir else res))"

text \<open>
  \<open>Provider.Decide\<close>: the result, the error (\<open>None\<close> for nil) and the provider after the
  call. The receiver is \<open>None\<close> when the pointer is nil.
\<close>

definition Provider_Decide :: "regexp \<Rightarrow> fileSystem \<Rightarrow> Provider option \<Rightarrow> string \<Rightarrow> bool \<Rightarrow> (MatchResult \<times> error option) \<times> Provider option" where
  "Provider_Decide rx fs receiver relPath isDir =
     (case receiver of
        None \<Rightarrow> ((zeroMatchResult, Some ErrNilProvider), None)
      | Some p \<Rightarrow>
          (case cleanRelPath relPath of
             Inl e \<Rightarrow> ((zeroMatchResult, Some e), Some p)
           | Inr normalized \<Rightarrow>
               (case applyDirMatcherDecisions rx fs p (dirChain (pathDir normalized isDir))
                       normalized isDir (baseDecision rx p normalized isDir) of
                  (Some e, res, p') \<Rightarrow> ((zeroMatchResult, Some e), Some p')
                | (None, res, p') \<Rightarrow> ((res, None), Some p'))))"

text \<open>
  \<open>prepareProviderDirMatchers\<close>: the directories are loaded in the same order; a
  directory without a rules file adds nothing to the list.
\<close>

fun prepareDirs :: "regexp \<Rightarrow> fileSystem \<Rightarrow> Provider \<Rightarrow> string list \<Rightarrow> providerDirMatcher list \<Rightarrow> (error + providerDirMatcher list) \<times> Provider" where
  "prepareDirs rx fs p [] matchers = (Inr matchers, p)"
| "prepareDirs rx fs p (rel # rels) matchers =
     (case loadDirMatcher rx fs p rel of
        (Inl e, p') \<Rightarrow> (Inl e, p')
      | (Inr None, p') \<Rightarrow> prepareDirs rx fs p' rels matchers
      | (Inr (Some m), p') \<Rightarrow>
          prepareDirs rx fs p' rels (matchers @ [\<lparr>dirMatcher = m, dirPrefix = rel\<rparr>]))"

definition prepareProviderDirMatchers :: "regexp \<Rightarrow> fileSystem \<Rightarrow> Provider \<Rightarrow> string \<Rightarrow> (error + providerDirMatcher list) \<times> Provider" where
  "prepareProviderDirMatchers rx fs p relDir = prepareDirs rx fs p (dirChain relDir) []"

fun applyPreparedDirMatchers :: "regexp \<Rightarrow> providerDirMatcher list \<Rightarrow> string \<Rightarrow> bool \<Rightarrow> MatchResult \<Rightarrow> MatchResult" where
  "applyPreparedDirMatchers rx [] normalized isDir res = res"
| "applyPreparedDirMatchers rx (pm # pms) normalized isDir res =
     (if dirPrefix pm \<noteq> [] \<and> normalized = dirPrefix pm
      then applyPreparedDirMatchers rx pms normalized isDir res
      else if dirPrefix pm \<noteq> [] \<and> \<not> HasPrefix normalized (dirPrefix pm @ ''/'')
      then applyPreparedDirMatchers rx pms normalized isDir res
      else
        let candidate = (if dirPrefix pm \<noteq> []
                         then drop (length (dirPrefix pm @ ''/'')) normalized else normalized);
            decision = Decide rx (dirMatcher pm) candidate isDir
        in if \<not> Matched decision then applyPreparedDirMatchers rx pms normalized isDir res
           else applyPreparedDirMatchers rx pms normalized isDir
                  (res\<lparr>Included := Included decision, Matched := True,
                       RuleIndex := RuleIndex decision\<rparr>))"

record DirEntry =
  Name :: string
  IsDir :: bool

text \<open>The loop of \<open>DecideInDir\<close> over the entries; \<open>results\<close> is the slice filled so far.\<close>

fun decideEntries :: "regexp \<Rightarrow> Provider \<Rightarrow> providerDirMatcher list \<Rightarrow> string \<Rightarrow> DirEntry list \<Rightarrow> MatchResult list \<Rightarrow> error + MatchResult list" where
  "decideEntries rx p dirMatchers normalizedDir [] results = Inr results"
| "decideEntries rx p dirMatchers normalizedDir (entry # entries) results =
     (case cleanEntryName (Name entry) of
        Inl e \<Rightarrow> Inl e
      | Inr entryName \<Rightarrow>
          let fullPath = (if normalizedDir \<noteq> [] then normalizedDir @ ''/'' @ entryName
                          else entryName);
              res = applyPreparedDirMatchers rx dirMatchers fullPath (IsDir entry)
                      (baseDecision rx p fullPath (IsDir entry))
          in decideEntries rx p dirMatchers normalizedDir entries (results @ [res]))"

definition Provider_DecideInDir :: "regexp \<Rightarrow> fileSystem \<Rightarrow> Provider option \<Rightarrow> string \<Rightarrow> DirEntry list \<Rightarrow> (MatchResult list \<times> error option) \<times> Provider option" where
  "Provider_DecideInDir rx fs receiver relDir entries =
     (case receiver of
        None \<Rightarrow> (([], Some ErrNilProvider), None)
      | Some p \<Rightarrow>
          (case cleanRelDir relDir of
             Inl e \<Rightarrow> (([], Some e), Some p)
           | Inr normalizedDir \<Rightarrow>
               (case prepareProviderDirMatchers rx fs p normalizedDir of
                  (Inl e, p') \<Rightarrow> (([], Some e), Some p')
                | (Inr dirMatchers, p') \<Rightarrow>
                    (case decideEntries rx p' dirMatchers normalizedDir entries [] of
                       Inl e \<Rightarrow> (([], Some e), Some p')
                     | Inr results \<Rightarrow> ((results, None), Some p')))))"

text \<open>
  \<open>NewProvider\<close>. Making the root absolute and resolving its symlinks is the operating
  system's part; \<open>rootError\<close> is the error of that step, if any.
\<close>

record ProviderOptions =
  RulesFileName :: string
  BaseRules :: "Rule list"
  MatcherOptions :: MatcherOptions
  EnableSymlinkEscapeCheck :: bool

definition defaultRulesFileName :: string where
  "defaultRulesFileName = ''.pathrules''"

definition cleanRulesFileName :: "string \<Rightarrow> error + string" where
  "cleanRulesFileName raw =
     (let name = TrimSpace raw;
          name = (if name = [] then defaultRulesFileName else name)
      in if IsAbs name then Inl ErrInvalidRulesFileName
         else let name = ToSlash name in
           if Contains name ''/'' \<or> name = ''.'' \<or> name = ''..''
           then Inl ErrInvalidRulesFileName
           else Inr name)"

definition NewProvider :: "regexp \<Rightarrow> error option \<Rightarrow> ProviderOptions \<Rightarrow> error + Provider" where
  "NewProvider rx rootError opts =
     (case rootError of
        Some e \<Rightarrow> Inl e
      | None \<Rightarrow>
          let mopts = applyDefaults (MatcherOptions opts) in
          case NewMatcher rx (BaseRules opts) mopts of
            Inl e \<Rightarrow> Inl e
          | Inr bm \<Rightarrow>
              (case cleanRulesFileName (RulesFileName opts) of
                 Inl e \<Rightarrow> Inl e
               | Inr name \<Rightarrow>
                   Inr \<lparr>baseMatcher = Some bm, cache = Map.empty, matcherOptions = mopts,
                        defaultIncluded = (DefaultAction mopts = ActionInclude)\<rparr>))"

text \<open>
  An example tree: the root ignores \<open>*.tmp\<close>, the directory \<open>textures\<close> takes them back,
  and the rules file of the directory \<open>bad\<close> holds a pattern that does not compile.
\<close>

definition exampleFiles :: fileSystem where
  "exampleFiles d =
     (if d = [] then Inr (Some (''*.tmp'' @ [CHR 0x0A]))
      else if d = ''textures'' then Inr (Some (''!*.tmp'' @ [CHR 0x0A]))
      else if d = ''bad'' then Inr (Some ''/'')
      else Inr None)"

definition exampleProvider :: Provider where
  "exampleProvider =
     projr (NewProvider exampleRegexp None
       \<lparr>RulesFileName = ''.pboignore'', BaseRules = [], MatcherOptions = ignoreOptions,
        EnableSymlinkEscapeCheck = False\<rparr>)"

section \<open>The provider's stack in the words of the specification\<close>

text \<open>
  The matcher of the rules file of a directory as the provider sees it: the outcome kept
  in the cache when the directory has been loaded before; otherwise the file is read,
  parsed and compiled with the provider's options. \<open>Inr None\<close> is a directory without
  rules file, \<open>Inl e\<close> a load error.
\<close>

definition ruleFileMatcher :: "regexp \<Rightarrow> fileSystem \<Rightarrow> Provider \<Rightarrow> string \<Rightarrow> error + Matcher option" where
  "ruleFileMatcher rx fs p D =
     (case cache p D of
        Some kept \<Rightarrow> (case err kept of Some e \<Rightarrow> Inl e | None \<Rightarrow> Inr (matcher kept))
      | None \<Rightarrow>
          (case fs D of
             Inl e \<Rightarrow> Inl e
           | Inr None \<Rightarrow> Inr None
           | Inr (Some content) \<Rightarrow>
               (case ParseRules content of
                  Inl e \<Rightarrow> Inl e
                | Inr rules \<Rightarrow> map_sum id Some (NewMatcher rx rules (matcherOptions p)))))"

text \<open>The candidate lies strictly below the directory \<open>D\<close>.\<close>

definition strictlyBelow :: "string \<Rightarrow> string \<Rightarrow> bool" where
  "strictlyBelow D candidate \<longleftrightarrow> candidate \<noteq> D \<and> prefix (D @ ''/'') candidate"

text \<open>
  The ancestor directories of a candidate, from the shallowest to the deepest: the
  beginnings \<open>D\<close> of the candidate that a slash follows. The directories of the stack are
  the root, the ancestors and, for a candidate that is a directory, the candidate itself.
\<close>

definition ancestorDirs :: "string \<Rightarrow> string list" where
  "ancestorDirs candidate =
     filter (\<lambda>D. prefix (D @ ''/'') candidate) (map (\<lambda>k. take k candidate) [0..<length candidate])"

definition stackDirs :: "string \<Rightarrow> bool \<Rightarrow> string list" where
  "stackDirs candidate isDir = [] # ancestorDirs candidate @ (if isDir then [candidate] else [])"

text \<open>
  The decisions a directory contributes to the stack: none when it has no rules file;
  the root's matcher decides the candidate as it is; the matcher of a directory \<open>D\<close> is
  consulted only for a candidate strictly below \<open>D\<close> and decides the candidate without
  the prefix \<open>D/\<close>.
\<close>

definition consulted :: "regexp \<Rightarrow> error + Matcher option \<Rightarrow> string \<Rightarrow> string \<Rightarrow> bool \<Rightarrow> MatchResult list" where
  "consulted rx loaded D candidate isDir =
     (case loaded of
        Inr (Some m) \<Rightarrow>
          if D = [] then [Decide rx m candidate isDir]
          else if strictlyBelow D candidate
          then [Decide rx m (drop (length D + 1) candidate) isDir]
          else []
      | _ \<Rightarrow> [])"

text \<open>The stack: the base matcher first, then the directories from the root to the deepest.\<close>

definition stackDecisions :: "regexp \<Rightarrow> fileSystem \<Rightarrow> Provider \<Rightarrow> string \<Rightarrow> bool \<Rightarrow> MatchResult list" where
  "stackDecisions rx fs p candidate isDir =
     (case baseMatcher p of Some bm \<Rightarrow> [Decide rx bm candidate isDir] | None \<Rightarrow> [])
     @ concat (map (\<lambda>D. consulted rx (ruleFileMatcher rx fs p D) D candidate isDir)
                   (stackDirs candidate isDir))"

text \<open>The last decision that matched, the default when none did.\<close>

definition lastMatching :: "MatchResult \<Rightarrow> MatchResult list \<Rightarrow> MatchResult" where
  "lastMatching dflt ds = (if filter Matched ds = [] then dflt else last (filter Matched ds))"

text \<open>The first load error among the directories, in their order.\<close>

fun firstLoadError :: "(error + Matcher option) list \<Rightarrow> error option" where
  "firstLoadError [] = None"
| "firstLoadError (Inl e # rest) = Some e"
| "firstLoadError (Inr m # rest) = firstLoadError rest"

text \<open>The decision of the stack: the default action unless a rule of the stack matched.\<close>

definition stackDecision :: "regexp \<Rightarrow> fileSystem \<Rightarrow> Provider \<Rightarrow> string \<Rightarrow> bool \<Rightarrow> MatchResult" where
  "stackDecision rx fs p candidate isDir =
     lastMatching \<lparr>Included = defaultIncluded p, Matched = False, RuleIndex = - 1\<rparr>
       (stackDecisions rx fs p candidate isDir)"

section \<open>Candidate normalization: what \<open>normalizePath\<close> and \<open>asciiLower\<close> compute\<close>

lemma backtrack_component:
  "CHR ''/'' \<notin> set w \<Longrightarrow> k \<le> length w \<Longrightarrow> d \<le> length p + k \<Longrightarrow>
     backtrack (p @ CHR ''/'' # w) d (length p + k) = max (length p) d"
proof (induction k)
  case 0
  then show ?case by (subst backtrack.simps) (simp add: nth_append max_def)
next
  case (Suc k)
  have ch: "(p @ CHR ''/'' # w) ! (length p + Suc k) = w ! k"
    by (simp add: nth_append)
  have ne: "w ! k \<noteq> CHR ''/''"
    using Suc.prems(1,2) by (metis Suc_le_lessD nth_mem)
  show ?case
  proof (cases "d < length p + Suc k")
    case True
    then have "backtrack (p @ CHR ''/'' # w) d (length p + Suc k)
             = backtrack (p @ CHR ''/'' # w) d (length p + k)"
      using ch ne by (subst backtrack.simps) simp
    also have "\<dots> = max (length p) d"
      using Suc.IH Suc.prems True by simp
    finally show ?thesis .
  next
    case False
    with Suc.prems(3) have "d = length p + Suc k" by simp
    then show ?thesis by (subst backtrack.simps) simp
  qed
qed

lemma joinSlash_snoc:
  "stack \<noteq> [] \<Longrightarrow> joinSlash (stack @ [w]) = joinSlash stack @ ''/'' @ w"
  by (induction stack rule: joinSlash.induct) simp_all

lemma joinSlash_nonempty:
  "stack \<noteq> [] \<Longrightarrow> list_all goodComponent stack \<Longrightarrow> joinSlash stack \<noteq> []"
  by (induction stack rule: joinSlash.induct) (simp_all add: goodComponent_def)

lemma render_snoc:
  "render (stack @ [w]) = (if stack = [] then ''/'' @ w else render stack @ ''/'' @ w)"
  by (simp add: render_def joinSlash_snoc)

lemma render_length_one:
  "list_all goodComponent stack \<Longrightarrow> length (render stack) = 1 \<longleftrightarrow> stack = []"
  using joinSlash_nonempty [of stack] by (cases "stack = []") (auto simp: render_def)

lemma render_pop:
  assumes "list_all goodComponent stack"
  shows "(if length (render stack) > 1
          then take (backtrack (render stack) 1 (length (render stack) - 1)) (render stack)
          else render stack) = render (butlast stack)"
proof (cases stack rule: rev_cases)
  case Nil
  then show ?thesis by (simp add: render_def)
next
  case (snoc s' w)
  with assms have w: "w \<noteq> []" "CHR ''/'' \<notin> set w" by (simp_all add: goodComponent_def)
  define p where "p = (if s' = [] then [] else render s')"
  have out: "render stack = p @ CHR ''/'' # w"
    by (simp add: snoc render_snoc p_def)
  have plen: "s' \<noteq> [] \<Longrightarrow> 1 \<le> length p" by (simp add: p_def render_def)
  have wl: "1 \<le> length w" using w(1) by (cases w) simp_all
  have "backtrack (p @ CHR ''/'' # w) 1 (length p + (length w)) = max (length p) 1"
    using w wl by (intro backtrack_component) simp_all
  then have bt: "backtrack (render stack) 1 (length (render stack) - 1) = max (length p) 1"
    by (simp add: out)
  have "take (max (length p) 1) (render stack) = render s'"
  proof (cases "s' = []")
    case True
    then show ?thesis by (simp add: out p_def render_def)
  next
    case False
    with plen have "max (length p) 1 = length p" by simp
    with False show ?thesis by (simp add: out p_def)
  qed
  moreover have "length (render stack) > 1" using w by (cases w) (simp_all add: out)
  ultimately show ?thesis using bt by (simp add: snoc)
qed

lemma components_unfold:
  "components s = takeWhile notSlash s # tailComponents (dropWhile notSlash s)"
proof (cases "dropWhile notSlash s")
  case Nil
  then show ?thesis by (subst components.simps) (simp only: tailComponents_def list.case)
next
  case (Cons a r)
  then show ?thesis by (subst components.simps) (simp only: tailComponents_def list.case)
qed

lemma components_slash: "components (CHR ''/'' # r) = [] # components r"
  by (subst components.simps) simp

lemma components_Nil: "components [] = [[]]"
  by (subst components.simps) simp

lemma resolveStep_empty: "resolveStep stack [] = stack"
  by (simp add: resolveStep_def)

lemma foldl_tailComponents:
  assumes "rest = [] \<or> hd rest = CHR ''/''"
  shows "foldl resolveStep st (components rest) = foldl resolveStep st (tailComponents rest)"
proof (cases rest)
  case Nil
  then show ?thesis by (simp add: components_Nil tailComponents_def resolveStep_empty)
next
  case (Cons a r)
  with assms have "a = CHR ''/''" by simp
  with Cons show ?thesis by (simp add: components_slash tailComponents_def resolveStep_empty)
qed

lemma dropWhile_boundary:
  "dropWhile notSlash r = [] \<or> hd (dropWhile notSlash r) = CHR ''/''"
  using hd_dropWhile [of notSlash r] by auto

lemma takeWhile_dot:
  "takeWhile notSlash r = ''.'' \<longleftrightarrow> prefix ''.'' r \<and> (tl r = [] \<or> hd (tl r) = CHR ''/'')"
proof (cases r)
  case Nil
  then show ?thesis by simp
next
  case (Cons a r2)
  then show ?thesis by (cases r2) (auto split: if_splits)
qed

lemma goodComponent_butlast: "list_all goodComponent stack \<Longrightarrow> list_all goodComponent (butlast stack)"
  by (auto simp: list_all_iff dest: in_set_butlastD)

lemma cleanLoop_if:
  "cleanLoop True 1 (if b then x else y) rest = (if b then cleanLoop True 1 x rest else cleanLoop True 1 y rest)"
  by simp

lemma cleanLoop_push:
  assumes "c \<noteq> CHR ''/''"
    and "\<not> (c = CHR ''.'' \<and> (r = [] \<or> hd r = CHR ''/''))"
    and "\<not> (c = CHR ''.'' \<and> prefix ''.'' r \<and> (tl r = [] \<or> hd (tl r) = CHR ''/''))"
  shows "cleanLoop True 1 out (c # r) =
     cleanLoop True 1 ((if length out \<noteq> 1 then out @ ''/'' else out) @ c # takeWhile notSlash r)
       (dropWhile notSlash r)"
  using assms by (subst cleanLoop.simps) (simp only: if_False if_True simp_thms)

lemma cleanLoop_rooted:
  "list_all goodComponent stack \<Longrightarrow>
     cleanLoop True 1 (render stack) rest = render (foldl resolveStep stack (components rest))"
proof (induction "length rest" arbitrary: rest stack rule: less_induct)
  case less
  note good = less.prems
  show ?case
  proof (cases rest)
    case Nil
    then show ?thesis by (simp add: components_Nil resolveStep_empty)
  next
    case (Cons c r)
    show ?thesis
    proof (cases "c = CHR ''/''")
      case True
      have "cleanLoop True 1 (render stack) rest = cleanLoop True 1 (render stack) r"
        by (simp add: Cons True)
      also have "\<dots> = render (foldl resolveStep stack (components r))"
        using less.hyps [of r stack] good by (simp add: Cons)
      finally show ?thesis by (simp add: Cons True components_slash resolveStep_empty)
    next
      case False
      define w where "w = c # takeWhile notSlash r"
      define rest' where "rest' = dropWhile notSlash r"
      have shorter: "length rest' < length rest"
        using length_dropWhile_le [of notSlash r] by (simp add: rest'_def Cons less_Suc_eq_le)
      have comps: "components rest = w # tailComponents rest'"
        using False components_unfold [of "c # r"] by (simp add: Cons w_def rest'_def)
      have fold: "foldl resolveStep stack (components rest)
                = foldl resolveStep (resolveStep stack w) (components rest')"
        using foldl_tailComponents [OF dropWhile_boundary [of r], folded rest'_def]
        by (simp add: comps)
      have ih: "list_all goodComponent st \<Longrightarrow>
          cleanLoop True 1 (render st) rest' = render (foldl resolveStep st (components rest'))" for st
        using less.hyps [OF shorter] by simp
      have wslash: "CHR ''/'' \<notin> set w"
        using False by (auto simp: w_def dest: set_takeWhileD)
      have wdot: "w = ''.'' \<longleftrightarrow> c = CHR ''.'' \<and> (r = [] \<or> hd r = CHR ''/'')"
        by (auto simp: w_def takeWhile_eq_Nil_iff)
      have wdd: "w = ''..'' \<longleftrightarrow> c = CHR ''.'' \<and> prefix ''.'' r \<and> (tl r = [] \<or> hd (tl r) = CHR ''/'')"
        using takeWhile_dot [of r] by (auto simp: w_def)
      show ?thesis
      proof (cases "w = ''.''")
        case True
        then have r: "rest' = r"
          using wdot by (cases r) (auto simp: rest'_def)
        have "cleanLoop True 1 (render stack) rest = cleanLoop True 1 (render stack) r"
          using True wdot False by (simp add: Cons)
        also have "\<dots> = render (foldl resolveStep stack (components rest'))"
          using ih [OF good] r by simp
        finally show ?thesis using True by (simp add: fold resolveStep_def)
      next
        case notdot: False
        show ?thesis
        proof (cases "w = ''..''")
          case True
          then have r: "rest' = tl r"
            using wdd by (cases r; cases "tl r") (auto simp: rest'_def)
          have "cleanLoop True 1 (render stack) rest =
              cleanLoop True 1 (if length (render stack) > 1
                then take (backtrack (render stack) 1 (length (render stack) - 1)) (render stack)
                else render stack) (tl r)"
            using True wdd wdot notdot False by (simp add: Cons)
          also have "\<dots> = cleanLoop True 1 (render (butlast stack)) rest'"
            using render_pop [OF good] r by simp
          also have "\<dots> = render (foldl resolveStep (butlast stack) (components rest'))"
            using ih [OF goodComponent_butlast [OF good]] .
          finally show ?thesis using True by (simp add: fold resolveStep_def)
        next
          case notdd: False
          have gw: "goodComponent w"
            using notdot notdd wslash by (simp add: goodComponent_def w_def)
          have "cleanLoop True 1 (render stack) rest =
              cleanLoop True 1 ((if length (render stack) \<noteq> 1 then render stack @ ''/''
                  else render stack) @ w) rest'"
            using cleanLoop_push [of c r "render stack"] notdot notdd wdot wdd False
            unfolding Cons w_def rest'_def by blast
          also have "(if length (render stack) \<noteq> 1 then render stack @ ''/''
                  else render stack) @ w = render (stack @ [w])"
            using render_length_one [OF good] by (auto simp: render_snoc render_def joinSlash_snoc)
          also have "cleanLoop True 1 (render (stack @ [w])) rest'
                = render (foldl resolveStep (stack @ [w]) (components rest'))"
            using ih [of "stack @ [w]"] good gw by simp
          finally show ?thesis
            using notdot notdd gw by (simp add: fold resolveStep_def goodComponent_def)
        qed
      qed
    qed
  qed
qed

lemma Clean_rooted: "Clean (CHR ''/'' # raw) = render (resolveDots (components raw))"
  using cleanLoop_rooted [of "[]" raw]
  by (simp add: Clean_def render_def resolveDots_def)

lemma Contains_prefix: "prefix sub s \<Longrightarrow> Contains s sub"
  by (cases s) auto

lemma Contains_append: "Contains (ps @ sub @ ss) sub"
  by (induction ps) (auto simp: Contains_prefix)

lemma Contains_exists: "Contains s sub \<Longrightarrow> \<exists>ps ss. s = ps @ sub @ ss"
proof (induction s)
  case Nil
  then show ?case by simp
next
  case (Cons c cs)
  from Cons.prems have "prefix sub (c # cs) \<or> Contains cs sub" by simp
  then show ?case
  proof
    assume "prefix sub (c # cs)"
    then obtain ss where "c # cs = sub @ ss" by (auto simp: prefix_def)
    then have "c # cs = [] @ sub @ ss" by simp
    then show ?thesis by blast
  next
    assume "Contains cs sub"
    from Cons.IH [OF this] obtain ps ss where "cs = ps @ sub @ ss" by blast
    then have "c # cs = (c # ps) @ sub @ ss" by simp
    then show ?thesis by blast
  qed
qed

lemma Contains_iff: "Contains s sub \<longleftrightarrow> (\<exists>ps ss. s = ps @ sub @ ss)"
  using Contains_append Contains_exists by blast

lemma components_nonempty: "components s \<noteq> []"
  by (simp add: components_unfold [of s])

lemma components_notslash:
  "c \<noteq> CHR ''/'' \<Longrightarrow> components (c # s) = (c # hd (components s)) # tl (components s)"
  by (simp add: components_unfold [of "c # s"] components_unfold [of s])

lemma components_append_slash: "components (a @ CHR ''/'' # b) = components a @ components b"
proof (induction a)
  case Nil
  then show ?case by (simp add: components_slash components_Nil)
next
  case (Cons c a)
  show ?case
  proof (cases "c = CHR ''/''")
    case True
    then show ?thesis using Cons by (simp add: components_slash)
  next
    case False
    then show ?thesis
      using Cons components_nonempty [of a]
      by (simp add: components_notslash hd_append)
  qed
qed

lemma components_noslash: "CHR ''/'' \<notin> set w \<Longrightarrow> components w = [w]"
  by (induction w) (auto simp: components_Nil components_notslash)

lemma components_slashfree: "w \<in> set (components p) \<Longrightarrow> CHR ''/'' \<notin> set w"
proof (induction p arbitrary: w)
  case Nil
  then show ?case by (simp add: components_Nil)
next
  case (Cons c p)
  show ?case
  proof (cases "c = CHR ''/''")
    case True
    then show ?thesis using Cons by (auto simp: components_slash)
  next
    case False
    obtain x xs where x: "components p = x # xs"
      using components_nonempty [of p] by (cases "components p") auto
    then show ?thesis using Cons False by (auto simp: components_notslash)
  qed
qed

lemma joinSlash_Cons_Cons: "joinSlash ((c # x) # xs) = c # joinSlash (x # xs)"
  by (cases xs) simp_all

lemma join_components: "joinSlash (components p) = p"
proof (induction p)
  case Nil
  then show ?case by (simp add: components_Nil)
next
  case (Cons c p)
  obtain x xs where x: "components p = x # xs"
    using components_nonempty [of p] by (cases "components p") auto
  show ?case
  proof (cases "c = CHR ''/''")
    case True
    then show ?thesis using Cons x by (simp add: components_slash)
  next
    case False
    then show ?thesis using Cons x by (simp add: components_notslash joinSlash_Cons_Cons)
  qed
qed

lemma joinSlash_append:
  "xs \<noteq> [] \<Longrightarrow> ys \<noteq> [] \<Longrightarrow> joinSlash (xs @ ys) = joinSlash xs @ ''/'' @ joinSlash ys"
proof (induction xs rule: joinSlash.induct)
  case 1
  then show ?case by simp
next
  case (2 c)
  then show ?case by (cases ys) simp_all
next
  case (3 c d cs)
  then show ?case by simp
qed

text \<open>Where a slash-free word is a component of a path, and where a component before the last.\<close>

lemma component_iff:
  assumes w: "CHR ''/'' \<notin> set w"
  shows "w \<in> set (components p) \<longleftrightarrow>
     p = w \<or> prefix (w @ ''/'') p \<or> suffix (''/'' @ w) p \<or> Contains p (''/'' @ w @ ''/'')"
proof
  assume "w \<in> set (components p)"
  then obtain xs ys where split: "components p = xs @ w # ys"
    by (auto dest: split_list)
  have p: "p = joinSlash (xs @ w # ys)"
    using join_components [of p] split by simp
  show "p = w \<or> prefix (w @ ''/'') p \<or> suffix (''/'' @ w) p \<or> Contains p (''/'' @ w @ ''/'')"
  proof (cases "xs = []")
    case True
    show ?thesis
    proof (cases "ys = []")
      case True
      with \<open>xs = []\<close> p show ?thesis by simp
    next
      case False
      have "p = w @ ''/'' @ joinSlash ys"
        using p \<open>xs = []\<close> False joinSlash_append [of "[w]" ys] by simp
      then show ?thesis by (simp add: prefix_def)
    qed
  next
    case False
    show ?thesis
    proof (cases "ys = []")
      case True
      have "p = joinSlash xs @ ''/'' @ w"
        using p True False joinSlash_append [of xs "[w]"] by simp
      then show ?thesis by (simp add: suffix_def)
    next
      case ys: False
      have "joinSlash (w # ys) = w @ ''/'' @ joinSlash ys"
        using ys joinSlash_append [of "[w]" ys] by simp
      then have "p = joinSlash xs @ (''/'' @ w @ ''/'') @ joinSlash ys"
        using p False joinSlash_append [of xs "w # ys"] by simp
      then have "Contains p (''/'' @ w @ ''/'')"
        using Contains_append [of "joinSlash xs" "''/'' @ w @ ''/''" "joinSlash ys"] by simp
      then show ?thesis by simp
    qed
  qed
next
  assume "p = w \<or> prefix (w @ ''/'') p \<or> suffix (''/'' @ w) p \<or> Contains p (''/'' @ w @ ''/'')"
  then consider (a) "p = w" | (b) "prefix (w @ ''/'') p" | (c) "suffix (''/'' @ w) p"
    | (d) "Contains p (''/'' @ w @ ''/'')" by blast
  then show "w \<in> set (components p)"
  proof cases
    case a
    then show ?thesis using w by (simp add: components_noslash)
  next
    case b
    then obtain r where "p = w @ CHR ''/'' # r" by (auto simp: prefix_def)
    then show ?thesis using w by (simp add: components_append_slash components_noslash)
  next
    case c
    then obtain r where "p = r @ CHR ''/'' # w" by (auto simp: suffix_def)
    then show ?thesis using w by (simp add: components_append_slash components_noslash)
  next
    case d
    then obtain a b where "p = a @ (''/'' @ w @ ''/'') @ b" by (auto simp: Contains_iff)
    then have "p = a @ CHR ''/'' # (w @ CHR ''/'' # b)" by simp
    then show ?thesis using w by (simp add: components_append_slash components_noslash)
  qed
qed

lemma inner_component_iff:
  assumes w: "CHR ''/'' \<notin> set w"
  shows "w \<in> set (butlast (components p)) \<longleftrightarrow>
     prefix (w @ ''/'') p \<or> Contains p (''/'' @ w @ ''/'')"
proof
  assume "w \<in> set (butlast (components p))"
  then obtain xs ys where split0: "butlast (components p) = xs @ w # ys"
    by (auto dest: split_list)
  have "components p = butlast (components p) @ [last (components p)]"
    using components_nonempty [of p] by simp
  then have split: "components p = xs @ w # (ys @ [last (components p)])"
    using split0 by simp
  define zs where "zs = ys @ [last (components p)]"
  have zs: "zs \<noteq> []" by (simp add: zs_def)
  have p: "p = joinSlash (xs @ w # zs)"
    using join_components [of p] split by (simp add: zs_def)
  have wz: "joinSlash (w # zs) = w @ ''/'' @ joinSlash zs"
    using zs joinSlash_append [of "[w]" zs] by simp
  show "prefix (w @ ''/'') p \<or> Contains p (''/'' @ w @ ''/'')"
  proof (cases "xs = []")
    case True
    then show ?thesis using p wz by (simp add: prefix_def)
  next
    case False
    then have "p = joinSlash xs @ (''/'' @ w @ ''/'') @ joinSlash zs"
      using p wz joinSlash_append [of xs "w # zs"] by simp
    then have "Contains p (''/'' @ w @ ''/'')"
      using Contains_append [of "joinSlash xs" "''/'' @ w @ ''/''" "joinSlash zs"] by simp
    then show ?thesis by simp
  qed
next
  assume "prefix (w @ ''/'') p \<or> Contains p (''/'' @ w @ ''/'')"
  then consider (b) "prefix (w @ ''/'') p" | (d) "Contains p (''/'' @ w @ ''/'')" by blast
  then show "w \<in> set (butlast (components p))"
  proof cases
    case b
    then obtain r where "p = w @ CHR ''/'' # r" by (auto simp: prefix_def)
    then show ?thesis
      using w components_nonempty [of r]
      by (simp add: components_append_slash components_noslash butlast_append)
  next
    case d
    then obtain a b where "p = a @ (''/'' @ w @ ''/'') @ b" by (auto simp: Contains_iff)
    then have "p = a @ CHR ''/'' # (w @ CHR ''/'' # b)" by simp
    then show ?thesis
      using w components_nonempty [of b]
      by (simp add: components_append_slash components_noslash butlast_append)
  qed
qed

lemma isSimpleNormalizedPath_alreadyClean: "isSimpleNormalizedPath p \<longleftrightarrow> alreadyClean p"
proof -
  have e: "[] \<in> set (components p) \<longleftrightarrow>
      p = [] \<or> prefix ''/'' p \<or> suffix ''/'' p \<or> Contains p ''//''"
    using component_iff [of "[]" p] by simp
  have dd: "''..'' \<in> set (components p) \<longleftrightarrow>
      p = ''..'' \<or> prefix ''../'' p \<or> suffix ''/..'' p \<or> Contains p ''/../''"
    using component_iff [of "''..''" p] by simp
  have d: "''.'' \<in> set (butlast (components p)) \<longleftrightarrow> prefix ''./'' p \<or> Contains p ''/./''"
    using inner_component_iff [of "''.''" p] by simp
  have "alreadyClean p \<longleftrightarrow> p \<noteq> ''.'' \<and> [] \<notin> set (components p) \<and>
      ''..'' \<notin> set (components p) \<and> ''.'' \<notin> set (butlast (components p))"
    by (auto simp: alreadyClean_def list_all_iff)
  then show ?thesis
    unfolding e dd d by (auto simp: isSimpleNormalizedPath_def HasPrefix_def HasSuffix_def)
qed

lemma ReplaceAll_byte:
  "ReplaceAll s [b] [n] = map (\<lambda>c. if c = b then n else c) s"
  by (induction s) auto

lemma Contains_byte: "Contains s [b] \<longleftrightarrow> b \<in> set s"
  by (induction s) auto

lemma slashes_map:
  "(if Contains s [bslash] then ReplaceAll s [bslash] ''/'' else s)
     = map (\<lambda>c. if c = bslash then CHR ''/'' else c) s"
proof (cases "Contains s [bslash]")
  case True
  then show ?thesis by (simp add: ReplaceAll_byte)
next
  case False
  then have "bslash \<notin> set s" by (simp add: Contains_byte)
  then have "map (\<lambda>c. if c = bslash then CHR ''/'' else c) s = map (\<lambda>c. c) s"
    by (intro map_cong refl) auto
  then show ?thesis using False by simp
qed

lemma resolveStep_good:
  "list_all goodComponent stack \<Longrightarrow> CHR ''/'' \<notin> set c \<Longrightarrow>
     list_all goodComponent (resolveStep stack c)"
  by (auto simp: resolveStep_def goodComponent_def list_all_iff dest: in_set_butlastD)

lemma foldl_resolveStep_good:
  "list_all goodComponent stack \<Longrightarrow> \<forall>c\<in>set cs. CHR ''/'' \<notin> set c \<Longrightarrow>
     list_all goodComponent (foldl resolveStep stack cs)"
  by (induction cs arbitrary: stack) (simp_all add: resolveStep_good)

lemma resolveDots_good: "list_all goodComponent (resolveDots (components p))"
  unfolding resolveDots_def
  by (rule foldl_resolveStep_good) (simp_all add: components_slashfree)

lemma joinSlash_good:
  assumes "list_all goodComponent stack"
  shows "joinSlash stack \<noteq> ''.''" and "\<not> suffix ''/'' (joinSlash stack)"
proof -
  show "joinSlash stack \<noteq> ''.''"
  proof (cases stack rule: rev_cases)
    case Nil
    then show ?thesis by simp
  next
    case (snoc xs w)
    show ?thesis
    proof (cases "xs = []")
      case True
      then show ?thesis using snoc assms by (simp add: goodComponent_def)
    next
      case False
      then have "joinSlash stack = joinSlash xs @ ''/'' @ w"
        using snoc joinSlash_snoc by simp
      moreover have "w \<noteq> []" using snoc assms by (simp add: goodComponent_def)
      ultimately have "length (joinSlash stack) \<ge> 2"
        by (cases w) simp_all
      then show ?thesis by auto
    qed
  qed
  show "\<not> suffix ''/'' (joinSlash stack)"
  proof (cases stack rule: rev_cases)
    case Nil
    then show ?thesis by (simp add: suffix_def)
  next
    case (snoc xs w)
    have gw: "w \<noteq> []" "CHR ''/'' \<notin> set w"
      using snoc assms by (simp_all add: goodComponent_def)
    have "\<exists>pre. joinSlash stack = pre @ w"
    proof (cases "xs = []")
      case True
      then show ?thesis using snoc by simp
    next
      case False
      then have "joinSlash stack = (joinSlash xs @ ''/'') @ w"
        using snoc joinSlash_snoc by simp
      then show ?thesis by blast
    qed
    then obtain pre where pre: "joinSlash stack = pre @ w" by blast
    show ?thesis
    proof
      assume "suffix ''/'' (joinSlash stack)"
      then obtain q where "pre @ w = q @ ''/''" using pre by (auto simp: suffix_def)
      then have "last (pre @ w) = CHR ''/''" by simp
      then have "last w = CHR ''/''" using gw by simp
      then show False using gw last_in_set [of w] by auto
    qed
  qed
qed

lemma normalizePath_slow:
  "(let raw = Clean (''/'' @ r); raw = TrimPrefix raw ''/''
    in if raw = ''.'' then [] else TrimSuffix raw ''/'') = joinSlash (resolveDots (components r))"
proof -
  define st where "st = resolveDots (components r)"
  have good: "list_all goodComponent st"
    by (simp add: st_def resolveDots_good)
  have c: "Clean (''/'' @ r) = CHR ''/'' # joinSlash st"
    using Clean_rooted [of r] by (simp add: render_def st_def)
  have t: "TrimPrefix (CHR ''/'' # joinSlash st) ''/'' = joinSlash st"
    by (simp add: TrimPrefix_def)
  have u: "TrimSuffix (joinSlash st) ''/'' = joinSlash st"
    using joinSlash_good(2) [OF good] by (simp add: TrimSuffix_def)
  show ?thesis
    unfolding Let_def c t u st_def [symmetric] using joinSlash_good(1) [OF good] by simp
qed

lemma normalizePath_spec: "normalizePath s = specNormalizePath s"
proof -
  define t where "t = TrimSpace s"
  define r1 where "r1 = map (\<lambda>c. if c = bslash then CHR ''/'' else c) t"
  define r2 where "r2 = (if prefix ''./'' r1 then drop 2 r1 else r1)"
  define r3 where "r3 = (if prefix ''/'' r2 then drop 1 r2 else r2)"
  have a1: "(if Contains t [bslash] then ReplaceAll t [bslash] ''/'' else t) = r1"
    unfolding r1_def by (rule slashes_map)
  have a2: "TrimPrefix r1 ''./'' = r2"
    by (simp add: TrimPrefix_def r2_def numeral_2_eq_2)
  have a3: "TrimPrefix r2 ''/'' = r3"
    by (simp add: TrimPrefix_def r3_def)
  have "normalizePath s = (if r3 = [] then [] else if isSimpleNormalizedPath r3 then r3
      else joinSlash (resolveDots (components r3)))"
    unfolding normalizePath_def Let_def t_def [symmetric] a1 a2 a3
      normalizePath_slow [unfolded Let_def] by (rule refl)
  also have "\<dots> = specNormalizePath s"
    unfolding specNormalizePath_def Let_def t_def [symmetric] r1_def [symmetric]
      r2_def [symmetric] r3_def [symmetric] isSimpleNormalizedPath_alreadyClean by (rule refl)
  finally show ?thesis .
qed

lemma upper_letters: "isUpper c \<longleftrightarrow> c \<in> set ''ABCDEFGHIJKLMNOPQRSTUVWXYZ''"
proof
  assume "isUpper c"
  then have "of_char c \<in> {65..<91::nat}"
    by (simp add: isUpper_def)
  then have "of_char c \<in> set [65..<91::nat]"
    unfolding set_upt .
  then have "char_of (of_char c :: nat) \<in> char_of ` set [65..<91::nat]"
    by (rule imageI)
  moreover have "(char_of :: nat \<Rightarrow> char) ` set [65..<91::nat] = set ''ABCDEFGHIJKLMNOPQRSTUVWXYZ''"
    by code_simp
  ultimately have "char_of (of_char c :: nat) \<in> set ''ABCDEFGHIJKLMNOPQRSTUVWXYZ''"
    by (simp only:)
  then show "c \<in> set ''ABCDEFGHIJKLMNOPQRSTUVWXYZ''"
    by (simp only: char_of_char)
next
  assume "c \<in> set ''ABCDEFGHIJKLMNOPQRSTUVWXYZ''"
  moreover have "\<forall>c \<in> set ''ABCDEFGHIJKLMNOPQRSTUVWXYZ''. isUpper c" by code_simp
  ultimately show "isUpper c" by blast
qed

lemma lowerByte_specLower: "lowerByte c = specLower c"
proof (cases "isUpper c")
  case True
  have "\<forall>c \<in> set ''ABCDEFGHIJKLMNOPQRSTUVWXYZ''. lowerByte c = specLower c" by code_simp
  then show ?thesis using True upper_letters by blast
next
  case False
  define U where "U = ''ABCDEFGHIJKLMNOPQRSTUVWXYZ''"
  define L where "L = ''abcdefghijklmnopqrstuvwxyz''"
  have "length U = length L" by (simp add: U_def L_def)
  then have "map fst (zip U L) = U" by (rule map_fst_zip)
  then have "fst ` set (zip U L) = set U" by (metis set_map)
  moreover have "c \<notin> set U" using False unfolding upper_letters U_def .
  ultimately have "map_of (zip U L) c = None"
    by (simp only: map_of_eq_None_iff not_False_eq_True)
  then have "map_of (zip ''ABCDEFGHIJKLMNOPQRSTUVWXYZ'' ''abcdefghijklmnopqrstuvwxyz'') c = None"
    by (simp only: U_def L_def)
  then show ?thesis using False by (simp add: specLower_def lowerByte_def)
qed

lemma asciiLower_specLower: "asciiLower s = map specLower s"
proof -
  have "asciiLower s = map lowerByte s"
    by (induction s) (auto simp: lowerByte_def)
  then show ?thesis by (simp add: lowerByte_specLower)
qed

section \<open>The matcher: compilation in order, last match wins\<close>

lemma compileRule_source: "compileRule rx rule ci = Inr cr \<Longrightarrow> source cr = rule"
  unfolding compileRule_def zeroRule_def
  by (simp add: Let_def split: if_splits) auto

lemma compileRules_nth:
  "compileRules rx ci rs acc = Inr cs \<Longrightarrow>
     length cs = length acc + length rs \<and> take (length acc) cs = acc \<and>
     (\<forall>i<length rs. compileRule rx (rs ! i) ci = Inr (cs ! (length acc + i)))"
proof (induction rs arbitrary: acc)
  case Nil
  then show ?case by simp
next
  case (Cons r rs)
  from Cons.prems obtain cr where cr: "compileRule rx r ci = Inr cr"
    and rest: "compileRules rx ci rs (acc @ [cr]) = Inr cs"
    by (auto split: sum.splits)
  from Cons.IH [OF rest] have len: "length cs = length acc + 1 + length rs"
    and tk: "take (length acc + 1) cs = acc @ [cr]"
    and nth: "\<forall>i<length rs. compileRule rx (rs ! i) ci = Inr (cs ! (length acc + 1 + i))"
    by simp_all
  have "take (length acc) (take (length acc + 1) cs) = take (length acc) (acc @ [cr])"
    using tk by simp
  then have tk': "take (length acc) cs = acc" by simp
  have "take (length acc + 1) cs ! length acc = cr"
    using tk by simp
  then have at: "cs ! length acc = cr" by simp
  show ?case
  proof (intro conjI allI impI)
    show "length cs = length acc + length (r # rs)" using len by simp
    show "take (length acc) cs = acc" by (rule tk')
    fix i assume "i < length (r # rs)"
    then show "compileRule rx ((r # rs) ! i) ci = Inr (cs ! (length acc + i))"
      using cr at nth by (cases i) auto
  qed
qed

lemma compileRules_error:
  "compileRules rx ci rs acc = Inl e \<longleftrightarrow>
     (\<exists>i<length rs. compileRule rx (rs ! i) ci = Inl e \<and>
        (\<forall>j<i. \<exists>cr. compileRule rx (rs ! j) ci = Inr cr))"
proof (induction rs arbitrary: acc)
  case Nil
  then show ?case by simp
next
  case (Cons r rs)
  show ?case
  proof (cases "compileRule rx r ci")
    case (Inl e')
    show ?thesis
    proof
      assume "compileRules rx ci (r # rs) acc = Inl e"
      with Inl have "e' = e" by simp
      with Inl show "\<exists>i<length (r # rs). compileRule rx ((r # rs) ! i) ci = Inl e \<and>
        (\<forall>j<i. \<exists>cr. compileRule rx ((r # rs) ! j) ci = Inr cr)"
        by (intro exI [of _ 0]) simp
    next
      assume "\<exists>i<length (r # rs). compileRule rx ((r # rs) ! i) ci = Inl e \<and>
        (\<forall>j<i. \<exists>cr. compileRule rx ((r # rs) ! j) ci = Inr cr)"
      then obtain i where i: "i < length (r # rs)" "compileRule rx ((r # rs) ! i) ci = Inl e"
        "\<forall>j<i. \<exists>cr. compileRule rx ((r # rs) ! j) ci = Inr cr" by blast
      have "i = 0"
      proof (rule ccontr)
        assume "i \<noteq> 0"
        then have "0 < i" by simp
        with i(3) have "\<exists>cr. compileRule rx ((r # rs) ! 0) ci = Inr cr" by blast
        with Inl show False by simp
      qed
      with i(2) Inl show "compileRules rx ci (r # rs) acc = Inl e" by simp
    qed
  next
    case (Inr cr)
    have "compileRules rx ci (r # rs) acc = Inl e \<longleftrightarrow> compileRules rx ci rs (acc @ [cr]) = Inl e"
      using Inr by simp
    also have "\<dots> \<longleftrightarrow> (\<exists>i<length rs. compileRule rx (rs ! i) ci = Inl e \<and>
        (\<forall>j<i. \<exists>cr. compileRule rx (rs ! j) ci = Inr cr))"
      by (rule Cons.IH)
    also have "\<dots> \<longleftrightarrow> (\<exists>i<length (r # rs). compileRule rx ((r # rs) ! i) ci = Inl e \<and>
        (\<forall>j<i. \<exists>cr. compileRule rx ((r # rs) ! j) ci = Inr cr))" (is "?L \<longleftrightarrow> ?R")
    proof
      assume ?L
      then obtain i where i: "i < length rs" "compileRule rx (rs ! i) ci = Inl e"
        "\<forall>j<i. \<exists>cr. compileRule rx (rs ! j) ci = Inr cr" by blast
      have "\<forall>j<Suc i. \<exists>cr. compileRule rx ((r # rs) ! j) ci = Inr cr"
      proof (intro allI impI)
        fix j assume "j < Suc i"
        then show "\<exists>cr. compileRule rx ((r # rs) ! j) ci = Inr cr"
          using Inr i(3) by (cases j) auto
      qed
      with i(1,2) show ?R by (intro exI [of _ "Suc i"]) simp
    next
      assume ?R
      then obtain i where i: "i < length (r # rs)" "compileRule rx ((r # rs) ! i) ci = Inl e"
        "\<forall>j<i. \<exists>cr. compileRule rx ((r # rs) ! j) ci = Inr cr" by blast
      from i(2) Inr obtain k where k: "i = Suc k" by (cases i) auto
      have "\<forall>j<k. \<exists>cr. compileRule rx (rs ! j) ci = Inr cr"
      proof (intro allI impI)
        fix j assume "j < k"
        then have "Suc j < i" using k by simp
        with i(3) have "\<exists>cr. compileRule rx ((r # rs) ! Suc j) ci = Inr cr" by blast
        then show "\<exists>cr. compileRule rx (rs ! j) ci = Inr cr" by simp
      qed
      with i(1,2) k show ?L by (intro exI [of _ k]) simp
    qed
    finally show ?thesis .
  qed
qed

lemma decideLoop_snoc:
  "decideLoop rx (rs @ [r]) i cand d res =
     (if matches rx r cand d
      then (decideLoop rx rs i cand d res)\<lparr>Matched := True, RuleIndex := int (i + length rs),
              Included := (Action (source r) = ActionInclude)\<rparr>
      else decideLoop rx rs i cand d res)"
  by (induction rs arbitrary: i res) auto

lemma decideLoop_last:
  "decideLoop rx rs 0 cand d res =
     (let ms = filter (\<lambda>i. matches rx (rs ! i) cand d) [0..<length rs]
      in if ms = [] then res
         else res\<lparr>Matched := True, RuleIndex := int (last ms),
                  Included := (Action (source (rs ! last ms)) = ActionInclude)\<rparr>)"
proof (induction rs rule: rev_induct)
  case Nil
  then show ?case by simp
next
  case (snoc r rs)
  have flt: "filter (\<lambda>i. matches rx ((rs @ [r]) ! i) cand d) [0..<length rs]
           = filter (\<lambda>i. matches rx (rs ! i) cand d) [0..<length rs]"
    by (rule filter_cong) (auto simp: nth_append)
  define f where "f = filter (\<lambda>i. matches rx (rs ! i) cand d) [0..<length rs]"
  have F: "filter (\<lambda>i. matches rx ((rs @ [r]) ! i) cand d) [0..<length (rs @ [r])]
           = f @ (if matches rx r cand d then [length rs] else [])"
    by (simp add: flt f_def)
  have IH: "decideLoop rx rs 0 cand d res =
     (if f = [] then res
      else res\<lparr>Matched := True, RuleIndex := int (last f),
               Included := (Action (source (rs ! last f)) = ActionInclude)\<rparr>)"
    using snoc.IH by (simp add: Let_def f_def)
  have lt: "f \<noteq> [] \<Longrightarrow> last f < length rs"
  proof -
    assume "f \<noteq> []"
    then have "last f \<in> set f" by simp
    then show ?thesis unfolding f_def by simp
  qed
  show ?case
  proof (cases "matches rx r cand d")
    case True
    then show ?thesis
      unfolding Let_def F decideLoop_snoc IH by simp
  next
    case False
    then show ?thesis
      unfolding Let_def F decideLoop_snoc IH using lt by (simp add: nth_append)
  qed
qed

lemma Decide_last_match:
  assumes "NewMatcher rx R opts = Inr M"
  shows "length (compiled M) = length R \<and>
    (\<forall>i<length R. compileRule rx (R ! i) (caseInsensitive M) = Inr (compiled M ! i)) \<and>
    caseInsensitive M = CaseInsensitive opts \<and>
    defaultAction M = DefaultAction (applyDefaults opts) \<and>
    Decide rx M c isDir =
      (let cand = (if caseInsensitive M then asciiLower (normalizePath c) else normalizePath c);
           ms = filter (\<lambda>i. matches rx (compiled M ! i) cand isDir) [0..<length R]
       in if ms = []
          then \<lparr>Included = (defaultAction M = ActionInclude), Matched = False, RuleIndex = - 1\<rparr>
          else \<lparr>Included = (Action (R ! last ms) = ActionInclude), Matched = True,
                RuleIndex = int (last ms)\<rparr>)"
proof -
  have ci: "CaseInsensitive (applyDefaults opts) = CaseInsensitive opts"
    by (simp add: applyDefaults_def)
  from assms obtain cs where cs: "compileRules rx (CaseInsensitive opts) R [] = Inr cs"
    and M: "M = \<lparr>compiled = cs, defaultAction = DefaultAction (applyDefaults opts),
                 caseInsensitive = CaseInsensitive opts\<rparr>"
    by (auto simp: NewMatcher_def Let_def ci split: sum.splits)
  from compileRules_nth [OF cs] have len: "length cs = length R"
    and nth: "\<forall>i<length R. compileRule rx (R ! i) (CaseInsensitive opts) = Inr (cs ! i)"
    by simp_all
  have src: "\<And>i. i < length R \<Longrightarrow> source (cs ! i) = R ! i"
    using nth compileRule_source by blast
  define cand where "cand = (if caseInsensitive M then asciiLower (normalizePath c) else normalizePath c)"
  define ms where "ms = filter (\<lambda>i. matches rx (cs ! i) cand isDir) [0..<length R]"
  have lastlt: "ms \<noteq> [] \<Longrightarrow> last ms < length R"
  proof -
    assume "ms \<noteq> []"
    then have "last ms \<in> set ms" by simp
    then show ?thesis unfolding ms_def by simp
  qed
  have "Decide rx M c isDir =
      decideLoop rx cs 0 cand isDir
        \<lparr>Included = (defaultAction M = ActionInclude), Matched = False, RuleIndex = - 1\<rparr>"
    by (simp add: Decide_def Let_def cand_def M)
  also have "\<dots> = (if ms = []
          then \<lparr>Included = (defaultAction M = ActionInclude), Matched = False, RuleIndex = - 1\<rparr>
          else \<lparr>Included = (Action (R ! last ms) = ActionInclude), Matched = True,
                RuleIndex = int (last ms)\<rparr>)"
    using lastlt src by (simp add: decideLoop_last Let_def len ms_def [symmetric])
  finally have dec: "Decide rx M c isDir = (if ms = []
          then \<lparr>Included = (defaultAction M = ActionInclude), Matched = False, RuleIndex = - 1\<rparr>
          else \<lparr>Included = (Action (R ! last ms) = ActionInclude), Matched = True,
                RuleIndex = int (last ms)\<rparr>)" .
  show ?thesis
    using len nth dec by (simp add: M Let_def cand_def ms_def)
qed

text \<open>
  Claim C1. For a matcher built by \<open>NewMatcher\<close> from the rules \<open>R\<close>, the compiled rules
  are the compiled forms of \<open>R\<close> in input order, and \<open>Decide\<close> normalizes the candidate
  (white space trimmed, backslashes turned into slashes, a leading \<open>./\<close> and a leading \<open>/\<close>
  stripped, then cleaned lexically unless it is already clean), lowers the letters \<open>A\<close> to
  \<open>Z\<close> when the matcher is case-insensitive, tests every compiled rule and answers with
  the last one that matches: \<open>Matched\<close> is true, \<open>RuleIndex\<close> is its index in \<open>R\<close> and
  \<open>Included\<close> says whether its action is \<open>Include\<close>. When no rule matches, the answer is
  the default action, \<open>Matched\<close> false and \<open>RuleIndex\<close> \<open>-1\<close>.
\<close>

theorem Matcher_Decide_last_match_wins:
  assumes "NewMatcher rx R opts = Inr M"
  shows "length (compiled M) = length R \<and>
    (\<forall>i<length R. compileRule rx (R ! i) (caseInsensitive M) = Inr (compiled M ! i)) \<and>
    caseInsensitive M = CaseInsensitive opts \<and>
    defaultAction M = DefaultAction (applyDefaults opts) \<and>
    Decide rx M c isDir =
      (let cand = (if caseInsensitive M then map specLower (specNormalizePath c)
                   else specNormalizePath c);
           ms = filter (\<lambda>i. matches rx (compiled M ! i) cand isDir) [0..<length R]
       in if ms = []
          then \<lparr>Included = (defaultAction M = ActionInclude), Matched = False, RuleIndex = - 1\<rparr>
          else \<lparr>Included = (Action (R ! last ms) = ActionInclude), Matched = True,
                RuleIndex = int (last ms)\<rparr>)"
  using Decide_last_match [OF assms, of c isDir]
  unfolding normalizePath_spec asciiLower_specLower .

theorem Matcher_Decide_last_match_wins_witness:
  "NewMatcher exampleRegexp ignoreRules ignoreOptions
     = Inr (projr (NewMatcher exampleRegexp ignoreRules ignoreOptions)) \<and>
   NewMatcher exampleRegexp foldRules foldOptions
     = Inr (projr (NewMatcher exampleRegexp foldRules foldOptions)) \<and>
   Decide exampleRegexp (projr (NewMatcher exampleRegexp ignoreRules ignoreOptions))
     (''build'' @ [bslash] @ ''keep.txt'') False = \<lparr>Included = True, Matched = True, RuleIndex = 3\<rparr> \<and>
   Decide exampleRegexp (projr (NewMatcher exampleRegexp ignoreRules ignoreOptions))
     ('' ./src//../a.tmp '') False = \<lparr>Included = False, Matched = True, RuleIndex = 0\<rparr> \<and>
   Decide exampleRegexp (projr (NewMatcher exampleRegexp ignoreRules ignoreOptions))
     (''src/main.c'') False = \<lparr>Included = True, Matched = False, RuleIndex = - 1\<rparr> \<and>
   Decide exampleRegexp (projr (NewMatcher exampleRegexp foldRules foldOptions))
     (''src'' @ [bslash] @ ''MAIN.cpp'') False = \<lparr>Included = False, Matched = True, RuleIndex = 0\<rparr>"
proof -
  define M where "M = projr (NewMatcher exampleRegexp ignoreRules ignoreOptions)"
  define N where "N = projr (NewMatcher exampleRegexp foldRules foldOptions)"
  have "\<not> isl (NewMatcher exampleRegexp ignoreRules ignoreOptions)"
    by code_simp
  then have hM: "NewMatcher exampleRegexp ignoreRules ignoreOptions = Inr M"
    unfolding M_def by simp
  have "\<not> isl (NewMatcher exampleRegexp foldRules foldOptions)"
    by code_simp
  then have hN: "NewMatcher exampleRegexp foldRules foldOptions = Inr N"
    unfolding N_def by simp
  have d1: "Decide exampleRegexp M (''build'' @ [bslash] @ ''keep.txt'') False =
      (let cand = (if caseInsensitive M then map specLower (specNormalizePath (''build'' @ [bslash] @ ''keep.txt''))
                   else specNormalizePath (''build'' @ [bslash] @ ''keep.txt''));
           ms = filter (\<lambda>i. matches exampleRegexp (compiled M ! i) cand False) [0..<length ignoreRules]
       in if ms = []
          then \<lparr>Included = (defaultAction M = ActionInclude), Matched = False, RuleIndex = - 1\<rparr>
          else \<lparr>Included = (Action (ignoreRules ! last ms) = ActionInclude), Matched = True,
                RuleIndex = int (last ms)\<rparr>)"
    using Matcher_Decide_last_match_wins [OF hM, of "''build'' @ [bslash] @ ''keep.txt''" False] by blast
  have e1: "(let cand = (if caseInsensitive M then map specLower (specNormalizePath (''build'' @ [bslash] @ ''keep.txt''))
                   else specNormalizePath (''build'' @ [bslash] @ ''keep.txt''));
           ms = filter (\<lambda>i. matches exampleRegexp (compiled M ! i) cand False) [0..<length ignoreRules]
       in if ms = []
          then \<lparr>Included = (defaultAction M = ActionInclude), Matched = False, RuleIndex = - 1\<rparr>
          else \<lparr>Included = (Action (ignoreRules ! last ms) = ActionInclude), Matched = True,
                RuleIndex = int (last ms)\<rparr>)
      = \<lparr>Included = True, Matched = True, RuleIndex = 3\<rparr>"
    unfolding M_def by code_simp
  have d2: "Decide exampleRegexp M ('' ./src//../a.tmp '') False =
      (let cand = (if caseInsensitive M then map specLower (specNormalizePath ('' ./src//../a.tmp ''))
                   else specNormalizePath ('' ./src//../a.tmp ''));
           ms = filter (\<lambda>i. matches exampleRegexp (compiled M ! i) cand False) [0..<length ignoreRules]
       in if ms = []
          then \<lparr>Included = (defaultAction M = ActionInclude), Matched = False, RuleIndex = - 1\<rparr>
          else \<lparr>Included = (Action (ignoreRules ! last ms) = ActionInclude), Matched = True,
                RuleIndex = int (last ms)\<rparr>)"
    using Matcher_Decide_last_match_wins [OF hM, of "'' ./src//../a.tmp ''" False] by blast
  have e2: "(let cand = (if caseInsensitive M then map specLower (specNormalizePath ('' ./src//../a.tmp ''))
                   else specNormalizePath ('' ./src//../a.tmp ''));
           ms = filter (\<lambda>i. matches exampleRegexp (compiled M ! i) cand False) [0..<length ignoreRules]
       in if ms = []
          then \<lparr>Included = (defaultAction M = ActionInclude), Matched = False, RuleIndex = - 1\<rparr>
          else \<lparr>Included = (Action (ignoreRules ! last ms) = ActionInclude), Matched = True,
                RuleIndex = int (last ms)\<rparr>)
      = \<lparr>Included = False, Matched = True, RuleIndex = 0\<rparr>"
    unfolding M_def by code_simp
  have d3: "Decide exampleRegexp M (''src/main.c'') False =
      (let cand = (if caseInsensitive M then map specLower (specNormalizePath (''src/main.c''))
                   else specNormalizePath (''src/main.c''));
           ms = filter (\<lambda>i. matches exampleRegexp (compiled M ! i) cand False) [0..<length ignoreRules]
       in if ms = []
          then \<lparr>Included = (defaultAction M = ActionInclude), Matched = False, RuleIndex = - 1\<rparr>
          else \<lparr>Included = (Action (ignoreRules ! last ms) = ActionInclude), Matched = True,
                RuleIndex = int (last ms)\<rparr>)"
    using Matcher_Decide_last_match_wins [OF hM, of "''src/main.c''" False] by blast
  have e3: "(let cand = (if caseInsensitive M then map specLower (specNormalizePath (''src/main.c''))
                   else specNormalizePath (''src/main.c''));
           ms = filter (\<lambda>i. matches exampleRegexp (compiled M ! i) cand False) [0..<length ignoreRules]
       in if ms = []
          then \<lparr>Included = (defaultAction M = ActionInclude), Matched = False, RuleIndex = - 1\<rparr>
          else \<lparr>Included = (Action (ignoreRules ! last ms) = ActionInclude), Matched = True,
                RuleIndex = int (last ms)\<rparr>)
      = \<lparr>Included = True, Matched = False, RuleIndex = - 1\<rparr>"
    unfolding M_def by code_simp
  have d4: "Decide exampleRegexp N (''src'' @ [bslash] @ ''MAIN.cpp'') False =
      (let cand = (if caseInsensitive N then map specLower (specNormalizePath (''src'' @ [bslash] @ ''MAIN.cpp''))
                   else specNormalizePath (''src'' @ [bslash] @ ''MAIN.cpp''));
           ms = filter (\<lambda>i. matches exampleRegexp (compiled N ! i) cand False) [0..<length foldRules]
       in if ms = []
          then \<lparr>Included = (defaultAction N = ActionInclude), Matched = False, RuleIndex = - 1\<rparr>
          else \<lparr>Included = (Action (foldRules ! last ms) = ActionInclude), Matched = True,
                RuleIndex = int (last ms)\<rparr>)"
    using Matcher_Decide_last_match_wins [OF hN, of "''src'' @ [bslash] @ ''MAIN.cpp''" False] by blast
  have e4: "(let cand = (if caseInsensitive N then map specLower (specNormalizePath (''src'' @ [bslash] @ ''MAIN.cpp''))
                   else specNormalizePath (''src'' @ [bslash] @ ''MAIN.cpp''));
           ms = filter (\<lambda>i. matches exampleRegexp (compiled N ! i) cand False) [0..<length foldRules]
       in if ms = []
          then \<lparr>Included = (defaultAction N = ActionInclude), Matched = False, RuleIndex = - 1\<rparr>
          else \<lparr>Included = (Action (foldRules ! last ms) = ActionInclude), Matched = True,
                RuleIndex = int (last ms)\<rparr>)
      = \<lparr>Included = False, Matched = True, RuleIndex = 0\<rparr>"
    unfolding N_def by code_simp
  show ?thesis
    using hM hN d1 e1 d2 e2 d3 e3 d4 e4 unfolding M_def N_def by simp
qed


section \<open>Compile errors\<close>

lemma lowerByte_id: "\<not> isUpper c \<Longrightarrow> lowerByte c = c"
  by (simp add: lowerByte_def)

lemma asciiLower_map: "asciiLower s = map lowerByte s"
  by (induction s) (auto simp: lowerByte_id)

lemma isUpper_slash: "\<not> isUpper CHR ''/''"
  by (simp add: isUpper_def)

lemma asciiLower_slashes:
  assumes "set s \<subseteq> {CHR ''/''}"
  shows "asciiLower s = s"
proof -
  have "map lowerByte s = map (\<lambda>c. c) s"
    using assms by (intro map_cong refl) (auto simp: lowerByte_id isUpper_slash)
  then show ?thesis by (simp add: asciiLower_map)
qed

lemma Trim_slashes:
  assumes "set s \<subseteq> {CHR ''/''}"
  shows "Trim (TrimSuffix (TrimPrefix s ''/'') ''/'') ''/'' = []"
proof -
  have "set (TrimPrefix s ''/'') \<subseteq> set s"
    by (auto simp: TrimPrefix_def dest: in_set_dropD)
  moreover have "set (TrimSuffix (TrimPrefix s ''/'') ''/'') \<subseteq> set (TrimPrefix s ''/'')"
    by (auto simp: TrimSuffix_def dest: in_set_takeD)
  ultimately have "set (TrimSuffix (TrimPrefix s ''/'') ''/'') \<subseteq> {CHR ''/''}"
    using assms by blast
  then have "TrimLeft (TrimSuffix (TrimPrefix s ''/'') ''/'') ''/'' = []"
    by (auto simp: TrimLeft_def dropWhile_eq_Nil_conv)
  then show ?thesis by (simp add: Trim_def TrimRight_def)
qed

lemma compileRule_only_slashes:
  assumes "valid (Action rule)" and "set (normalizePattern (Pattern rule)) \<subseteq> {CHR ''/''}"
  shows "compileRule rx rule ci = Inl ErrInvalidPattern"
proof -
  have low: "(if ci then asciiLower (normalizePattern (Pattern rule))
              else normalizePattern (Pattern rule)) = normalizePattern (Pattern rule)"
    using assms(2) by (simp add: asciiLower_slashes)
  show ?thesis
    unfolding compileRule_def Let_def low
    using assms(1) Trim_slashes [OF assms(2)] by simp
qed

lemma compileRule_error_kinds:
  "compileRule rx rule ci = Inl e \<Longrightarrow>
     (e = ErrInvalidRule \<and> \<not> valid (Action rule)) \<or> (e = ErrInvalidPattern \<and> valid (Action rule))"
  unfolding compileRule_def
  by (simp add: Let_def split: if_splits)

text \<open>
  Claim C9. \<open>NewMatcher\<close> returns the first compile error in the order of the rules and a
  matcher exactly when every rule compiles. \<open>compileRule\<close> fails with \<open>ErrInvalidRule\<close>
  exactly when the action is neither \<open>Include\<close> nor \<open>Exclude\<close>, whatever the pattern is, and
  with \<open>ErrInvalidPattern\<close> when the action is valid and the normalized pattern is empty or
  consists of slashes only.
\<close>

theorem NewMatcher_first_compile_error:
  "(NewMatcher rx rules opts = Inl e \<longleftrightarrow>
      (\<exists>i<length rules. compileRule rx (rules ! i) (CaseInsensitive opts) = Inl e \<and>
         (\<forall>j<i. \<exists>cr. compileRule rx (rules ! j) (CaseInsensitive opts) = Inr cr))) \<and>
   ((\<exists>m. NewMatcher rx rules opts = Inr m) \<longleftrightarrow>
      (\<forall>i<length rules. \<exists>cr. compileRule rx (rules ! i) (CaseInsensitive opts) = Inr cr)) \<and>
   (compileRule rx rule ci = Inl ErrInvalidRule \<longleftrightarrow> \<not> valid (Action rule)) \<and>
   (valid (Action rule) \<and> normalizePattern (Pattern rule) = [] \<longrightarrow>
      compileRule rx rule ci = Inl ErrInvalidPattern) \<and>
   (valid (Action rule) \<and> set (normalizePattern (Pattern rule)) \<subseteq> {CHR ''/''} \<longrightarrow>
      compileRule rx rule ci = Inl ErrInvalidPattern)"
proof (intro conjI)
  have ci: "CaseInsensitive (applyDefaults opts) = CaseInsensitive opts"
    by (simp add: applyDefaults_def)
  show "NewMatcher rx rules opts = Inl e \<longleftrightarrow>
      (\<exists>i<length rules. compileRule rx (rules ! i) (CaseInsensitive opts) = Inl e \<and>
         (\<forall>j<i. \<exists>cr. compileRule rx (rules ! j) (CaseInsensitive opts) = Inr cr))"
    using compileRules_error [of rx "CaseInsensitive opts" rules "[]" e]
    by (auto simp: NewMatcher_def Let_def ci split: sum.splits)
  show "(\<exists>m. NewMatcher rx rules opts = Inr m) \<longleftrightarrow>
      (\<forall>i<length rules. \<exists>cr. compileRule rx (rules ! i) (CaseInsensitive opts) = Inr cr)"
  proof
    assume "\<exists>m. NewMatcher rx rules opts = Inr m"
    then obtain cs where "compileRules rx (CaseInsensitive opts) rules [] = Inr cs"
      by (auto simp: NewMatcher_def Let_def ci split: sum.splits)
    from compileRules_nth [OF this]
    show "\<forall>i<length rules. \<exists>cr. compileRule rx (rules ! i) (CaseInsensitive opts) = Inr cr"
      by auto
  next
    assume all: "\<forall>i<length rules. \<exists>cr. compileRule rx (rules ! i) (CaseInsensitive opts) = Inr cr"
    have "\<not> (\<exists>e'. compileRules rx (CaseInsensitive opts) rules [] = Inl e')"
      using all by (auto simp: compileRules_error)
    then obtain cs where "compileRules rx (CaseInsensitive opts) rules [] = Inr cs"
      by (cases "compileRules rx (CaseInsensitive opts) rules []") auto
    then show "\<exists>m. NewMatcher rx rules opts = Inr m"
      by (simp add: NewMatcher_def Let_def ci)
  qed
  show "compileRule rx rule ci = Inl ErrInvalidRule \<longleftrightarrow> \<not> valid (Action rule)"
  proof
    assume "compileRule rx rule ci = Inl ErrInvalidRule"
    from compileRule_error_kinds [OF this] show "\<not> valid (Action rule)" by simp
  next
    assume "\<not> valid (Action rule)"
    then show "compileRule rx rule ci = Inl ErrInvalidRule"
      by (simp add: compileRule_def)
  qed
  show "valid (Action rule) \<and> normalizePattern (Pattern rule) = [] \<longrightarrow>
      compileRule rx rule ci = Inl ErrInvalidPattern"
    using compileRule_only_slashes [of rule rx ci] by simp
  show "valid (Action rule) \<and> set (normalizePattern (Pattern rule)) \<subseteq> {CHR ''/''} \<longrightarrow>
      compileRule rx rule ci = Inl ErrInvalidPattern"
    using compileRule_only_slashes [of rule rx ci] by simp
qed


theorem NewMatcher_first_compile_error_witness:
  "NewMatcher exampleRegexp brokenRules ignoreOptions = Inl ErrInvalidPattern \<and>
   compileRule exampleRegexp \<lparr>Pattern = ''keep.tmp'', Action = ActionUnknown\<rparr> False
     = Inl ErrInvalidRule \<and>
   compileRule exampleRegexp \<lparr>Pattern = '' // '', Action = ActionInclude\<rparr> False
     = Inl ErrInvalidPattern"
proof -
  note inst1 = NewMatcher_first_compile_error
    [of exampleRegexp brokenRules ignoreOptions ErrInvalidPattern
        "\<lparr>Pattern = '' // '', Action = ActionInclude\<rparr>" False]
  note inst2 = NewMatcher_first_compile_error
    [of exampleRegexp brokenRules ignoreOptions ErrInvalidPattern
        "\<lparr>Pattern = ''keep.tmp'', Action = ActionUnknown\<rparr>" False]
  have v: "valid (Action \<lparr>Pattern = '' // '', Action = ActionInclude\<rparr>)"
    by code_simp
  have sl: "set (normalizePattern (Pattern \<lparr>Pattern = '' // '', Action = ActionInclude\<rparr>))
              \<subseteq> {CHR ''/''}"
    by code_simp
  have second: "compileRule exampleRegexp \<lparr>Pattern = '' // '', Action = ActionInclude\<rparr> False
     = Inl ErrInvalidPattern"
    using inst1 v sl by blast
  have nv: "\<not> valid (Action \<lparr>Pattern = ''keep.tmp'', Action = ActionUnknown\<rparr>)"
    by code_simp
  have third: "compileRule exampleRegexp \<lparr>Pattern = ''keep.tmp'', Action = ActionUnknown\<rparr> False
     = Inl ErrInvalidRule"
    using inst2 nv by blast
  have "\<not> isl (compileRule exampleRegexp (brokenRules ! 0) (CaseInsensitive ignoreOptions))"
    by code_simp
  then have zero: "\<exists>cr. compileRule exampleRegexp (brokenRules ! 0) (CaseInsensitive ignoreOptions) = Inr cr"
    by (cases "compileRule exampleRegexp (brokenRules ! 0) (CaseInsensitive ignoreOptions)") auto
  have one: "compileRule exampleRegexp (brokenRules ! 1) (CaseInsensitive ignoreOptions)
     = Inl ErrInvalidPattern"
    using second by (simp add: brokenRules_def ignoreOptions_def)
  have "\<exists>i<length brokenRules.
          compileRule exampleRegexp (brokenRules ! i) (CaseInsensitive ignoreOptions)
            = Inl ErrInvalidPattern \<and>
          (\<forall>j<i. \<exists>cr. compileRule exampleRegexp (brokenRules ! j) (CaseInsensitive ignoreOptions)
            = Inr cr)"
    using zero one by (intro exI [of _ 1]) (simp add: brokenRules_def)
  then have first: "NewMatcher exampleRegexp brokenRules ignoreOptions = Inl ErrInvalidPattern"
    using inst1 by blast
  show ?thesis using first second third by simp
qed

section \<open>The rule parser, line by line\<close>

lemma bslash_not_blank: "\<not> isBlank bslash"
  by (simp add: isBlank_def bslash_def)

lemma specTrimTrailing_noblank:
  assumes "s = [] \<or> \<not> isBlank (last s)"
  shows "specTrimTrailing s = s"
proof -
  have "dropWhile isBlank (rev s) = rev s"
    using assms by (cases s rule: rev_cases) auto
  then show ?thesis by (simp add: specTrimTrailing_def)
qed

lemma specTrimTrailing_snoc_blank:
  assumes c: "isBlank c"
  shows "specTrimTrailing (t @ [c]) =
     (if t \<noteq> [] \<and> last t = bslash then butlast t @ [c] else specTrimTrailing t)"
proof -
  define body where "body = rev (dropWhile isBlank (rev t))"
  have body': "rev (dropWhile isBlank (rev (t @ [c]))) = body"
    using c by (simp add: body_def)
  have len: "length body \<le> length t"
    unfolding body_def by (simp add: length_dropWhile_le [of isBlank "rev t", simplified])
  have bl: "drop (length body) (t @ [c]) = drop (length body) t @ [c]"
    using len by simp
  have spec_s: "specTrimTrailing (t @ [c]) =
      (if body \<noteq> [] \<and> last body = bslash then butlast body @ [hd (drop (length body) t @ [c])]
       else body)"
    unfolding specTrimTrailing_def body' Let_def bl by simp
  have spec_t: "specTrimTrailing t =
      (if drop (length body) t \<noteq> [] \<and> body \<noteq> [] \<and> last body = bslash
       then butlast body @ [hd (drop (length body) t)] else body)"
    unfolding specTrimTrailing_def body_def [symmetric] Let_def by simp
  show ?thesis
  proof (cases "t \<noteq> [] \<and> last t = bslash")
    case True
    then have "dropWhile isBlank (rev t) = rev t"
      using bslash_not_blank by (cases t rule: rev_cases) auto
    then have "body = t" by (simp add: body_def)
    with True show ?thesis by (simp add: spec_s)
  next
    case False
    show ?thesis
    proof (cases "drop (length body) t = []")
      case True
      then have "length t \<le> length body" by simp
      with len have "length body = length t" by simp
      moreover have "body = take (length body) t"
      proof -
        have "rev t = takeWhile isBlank (rev t) @ dropWhile isBlank (rev t)" by simp
        then have "t = body @ rev (takeWhile isBlank (rev t))"
          unfolding body_def by (metis rev_append rev_rev_ident)
        then show ?thesis by (metis append_eq_conv_conj)
      qed
      ultimately have "body = t" by simp
      with False True show ?thesis by (auto simp: spec_s spec_t)
    next
      case nonempty: False
      then show ?thesis using False by (auto simp: spec_s spec_t)
    qed
  qed
qed

lemma trimTrailingSpaces_spec: "trimTrailingSpaces s = specTrimTrailing s"
proof (induction s rule: trimTrailingSpaces.induct)
  case (1 s)
  show ?case
  proof (cases "s \<noteq> [] \<and> (last s = CHR '' '' \<or> last s = CHR 0x09)")
    case False
    then have "s = [] \<or> \<not> isBlank (last s)" by (auto simp: isBlank_def)
    from specTrimTrailing_noblank [OF this] False show ?thesis
      by (subst trimTrailingSpaces.simps) auto
  next
    case True
    then obtain t c where s: "s = t @ [c]" and c: "isBlank c"
      by (cases s rule: rev_cases) (auto simp: isBlank_def)
    have two: "(length s \<ge> 2 \<and> s ! (length s - 2) = bslash) \<longleftrightarrow> (t \<noteq> [] \<and> last t = bslash)"
    proof (cases t rule: rev_cases)
      case Nil
      then show ?thesis by (simp add: s)
    next
      case (snoc u b)
      then show ?thesis by (simp add: s nth_append)
    qed
    show ?thesis
    proof (cases "t \<noteq> [] \<and> last t = bslash")
      case esc: True
      then have "trimTrailingSpaces s = take (length s - 2) s @ drop (length s - 1) s"
        using True two by (subst trimTrailingSpaces.simps) simp
      also have "\<dots> = butlast t @ [c]"
        using esc by (simp add: s butlast_conv_take)
      finally show ?thesis
        using esc c by (simp add: s specTrimTrailing_snoc_blank)
    next
      case noesc: False
      then have "trimTrailingSpaces s = trimTrailingSpaces (take (length s - 1) s)"
        using True two by (subst trimTrailingSpaces.simps) auto
      also have "\<dots> = specTrimTrailing (take (length s - 1) s)"
        using "1.IH" True two noesc by auto
      also have "take (length s - 1) s = t" by (simp add: s)
      finally show ?thesis
        using noesc c by (auto simp: s specTrimTrailing_snoc_blank)
    qed
  qed
qed

lemma TrimRight_dropCR:
  "TrimRight (dropCR raw) [CHR 0x0D] = rev (dropWhile (\<lambda>c. c = CHR 0x0D) (rev raw))"
  by (cases raw rule: rev_cases) (auto simp: TrimRight_def dropCR_def)

lemma parseLine_cases:
  assumes "l \<noteq> []"
  shows "(let line = (if HasPrefix l [bslash, CHR ''#''] then drop 1 l else l);
              action = (if HasPrefix line ''!'' then ActionInclude else ActionExclude);
              line = (if HasPrefix line ''!'' then drop 1 line
                      else if HasPrefix line [bslash, CHR ''!''] then drop 1 line
                      else line)
          in if HasPrefix l ''#'' then None
             else if line = [] then None else Some \<lparr>Pattern = line, Action = action\<rparr>)
       = (if hd l = CHR ''#'' then None
          else if prefix [bslash, CHR ''#''] l
          then Some \<lparr>Pattern = tl l, Action = ActionExclude\<rparr>
          else if hd l = CHR ''!''
          then (if tl l = [] then None else Some \<lparr>Pattern = tl l, Action = ActionInclude\<rparr>)
          else if prefix [bslash, CHR ''!''] l
          then Some \<lparr>Pattern = tl l, Action = ActionExclude\<rparr>
          else Some \<lparr>Pattern = l, Action = ActionExclude\<rparr>)"
proof (cases l)
  case Nil
  with assms show ?thesis by simp
next
  case (Cons a l')
  show ?thesis
  proof (cases l')
    case Nil
    then show ?thesis using Cons by (auto simp: HasPrefix_def Let_def bslash_def)
  next
    case (Cons b l'')
    then show ?thesis using \<open>l = a # l'\<close> by (auto simp: HasPrefix_def Let_def bslash_def)
  qed
qed

lemma parseLine_spec: "parseLine (dropCR raw) = specLineRule raw"
proof -
  define L where "L = rev (dropWhile (\<lambda>c. c = CHR 0x0D) (rev raw))"
  define l where "l = specTrimTrailing L"
  have e: "specTrimTrailing [] = []" by (simp add: specTrimTrailing_def)
  show ?thesis
  proof (cases "l = []")
    case True
    then show ?thesis
      unfolding parseLine_def specLineRule_def linePrefixRule_def TrimRight_dropCR trimTrailingSpaces_spec
        L_def [symmetric] Let_def l_def [symmetric]
      by simp
  next
    case False
    then have "L \<noteq> []" using e by (auto simp: l_def)
    with False parseLine_cases [OF False] show ?thesis
      unfolding parseLine_def specLineRule_def linePrefixRule_def TrimRight_dropCR trimTrailingSpaces_spec
        L_def [symmetric] Let_def l_def [symmetric]
      by (simp add: Let_def)
  qed
qed

lemma parseLoop_map_filter: "parseLoop tokens rules = rules @ List.map_filter parseLine tokens"
  by (induction tokens arbitrary: rules) (auto simp: List.map_filter_simps split: option.splits)

lemma scanTokens_ok:
  "\<not> list_ex (\<lambda>l. MaxScanTokenSize \<le> length l) ls \<Longrightarrow> scanTokens ls = (map dropCR ls, None)"
  by (induction ls) auto

lemma scanTokens_long:
  "list_ex (\<lambda>l. MaxScanTokenSize \<le> length l) ls \<Longrightarrow> snd (scanTokens ls) = Some ErrTooLong"
  by (induction ls) auto

lemma ParseRules_by_lines:
  "ParseRules src =
     (if list_ex (\<lambda>l. MaxScanTokenSize \<le> length l) (rawLines [] src) then Inl ErrTooLong
      else Inr (List.map_filter specLineRule (rawLines [] src)))"
proof (cases "list_ex (\<lambda>l. MaxScanTokenSize \<le> length l) (rawLines [] src)")
  case True
  from scanTokens_long [OF this] show ?thesis
    using True by (auto simp: ParseRules_def Let_def split: prod.splits)
next
  case False
  have "List.map_filter parseLine (map dropCR ls) = List.map_filter specLineRule ls" for ls
    by (induction ls) (simp_all add: List.map_filter_simps parseLine_spec split: option.splits)
  then show ?thesis
    using False scanTokens_ok [OF False] by (simp add: ParseRules_def parseLoop_map_filter)
qed


lemma rawLines_no_newline:
  "CHR 0x0A \<notin> set s \<Longrightarrow> rawLines cur s = (if cur @ s = [] then [] else [cur @ s])"
  by (induction s arbitrary: cur) auto

text \<open>
  Claim C6, as it is worded, fails on three inputs. It strips one trailing carriage
  return, the parser strips them all: the line \<open>a\r\r\r\<close> gives the pattern \<open>a\<close>, not
  \<open>a\r\r\<close>. It lets a backslash protect a space only, the parser protects a tab as well:
  the line \<open>a\\<close> followed by a tab gives the pattern \<open>a\<close> and the tab, not \<open>a\\<close>. And it
  gives rules for every input, while a line of 65536 bytes makes the scanner, and so the
  parser, fail.
\<close>

theorem ParseRules_claimed_wording_counterexample:
  "ParseRules (''a'' @ [CHR 0x0D, CHR 0x0D, CHR 0x0D, CHR 0x0A])
     = Inr [\<lparr>Pattern = ''a'', Action = ActionExclude\<rparr>] \<and>
   List.map_filter claimLineRule (rawLines [] (''a'' @ [CHR 0x0D, CHR 0x0D, CHR 0x0D, CHR 0x0A]))
     = [\<lparr>Pattern = ''a'' @ [CHR 0x0D, CHR 0x0D], Action = ActionExclude\<rparr>] \<and>
   ParseRules (''a'' @ [bslash, CHR 0x09, CHR 0x0A])
     = Inr [\<lparr>Pattern = ''a'' @ [CHR 0x09], Action = ActionExclude\<rparr>] \<and>
   List.map_filter claimLineRule (rawLines [] (''a'' @ [bslash, CHR 0x09, CHR 0x0A]))
     = [\<lparr>Pattern = ''a'' @ [bslash], Action = ActionExclude\<rparr>] \<and>
   ParseRules (replicate 65536 CHR ''a'') = Inl ErrTooLong"
proof -
  have l1: "rawLines [] (''a'' @ [CHR 0x0D, CHR 0x0D, CHR 0x0D, CHR 0x0A])
      = [''a'' @ [CHR 0x0D, CHR 0x0D, CHR 0x0D]]"
    by code_simp
  have l2: "rawLines [] (''a'' @ [bslash, CHR 0x09, CHR 0x0A]) = [''a'' @ [bslash, CHR 0x09]]"
    by code_simp
  have l3: "rawLines [] (replicate 65536 CHR ''a'') = [replicate 65536 CHR ''a'']"
    by (subst rawLines_no_newline) auto
  have s1: "List.map_filter specLineRule [''a'' @ [CHR 0x0D, CHR 0x0D, CHR 0x0D]]
      = [\<lparr>Pattern = ''a'', Action = ActionExclude\<rparr>]"
    by code_simp
  have s2: "List.map_filter specLineRule [''a'' @ [bslash, CHR 0x09]]
      = [\<lparr>Pattern = ''a'' @ [CHR 0x09], Action = ActionExclude\<rparr>]"
    by code_simp
  have c1: "List.map_filter claimLineRule [''a'' @ [CHR 0x0D, CHR 0x0D, CHR 0x0D]]
      = [\<lparr>Pattern = ''a'' @ [CHR 0x0D, CHR 0x0D], Action = ActionExclude\<rparr>]"
    by code_simp
  have c2: "List.map_filter claimLineRule [''a'' @ [bslash, CHR 0x09]]
      = [\<lparr>Pattern = ''a'' @ [bslash], Action = ActionExclude\<rparr>]"
    by code_simp
  have p1: "ParseRules (''a'' @ [CHR 0x0D, CHR 0x0D, CHR 0x0D, CHR 0x0A])
     = Inr [\<lparr>Pattern = ''a'', Action = ActionExclude\<rparr>]"
    unfolding ParseRules_by_lines l1 s1 by (simp add: MaxScanTokenSize_def)
  have p2: "ParseRules (''a'' @ [bslash, CHR 0x09, CHR 0x0A])
     = Inr [\<lparr>Pattern = ''a'' @ [CHR 0x09], Action = ActionExclude\<rparr>]"
    unfolding ParseRules_by_lines l2 s2 by (simp add: MaxScanTokenSize_def)
  have p3: "ParseRules (replicate 65536 CHR ''a'') = Inl ErrTooLong"
    unfolding ParseRules_by_lines l3 by (simp add: MaxScanTokenSize_def)
  show ?thesis
    unfolding l1 l2 using p1 p2 p3 c1 c2 unfolding l1 l2 by simp
qed

text \<open>
  Claim C6, amended. When every line is shorter than 65536 bytes, \<open>ParseRules\<close> returns, in
  the order of the input lines, the rule of each line (\<open>specLineRule\<close>): all trailing
  carriage returns stripped; trailing spaces and tabs trimmed, except that a blank (space
  or tab) escaped by a backslash is kept without the backslash and ends the trimming;
  empty lines and comment lines skipped; \<open>\#\<close> a literal \<open>#\<close> with action \<open>Exclude\<close>; \<open>!\<close>
  stripped with action \<open>Include\<close>; \<open>\!\<close> a literal \<open>!\<close> with action \<open>Exclude\<close>; any other
  line an \<open>Exclude\<close> rule; an empty pattern skipped. With a line of 65536 bytes or more
  the parser returns the scanner's error \<open>ErrTooLong\<close>.
\<close>

theorem ParseRules_line_by_line:
  "ParseRules src =
     (if list_ex (\<lambda>l. MaxScanTokenSize \<le> length l) (rawLines [] src) then Inl ErrTooLong
      else Inr (List.map_filter specLineRule (rawLines [] src)))"
  by (rule ParseRules_by_lines)

theorem ParseRules_line_by_line_witness:
  "ParseRules parseExample =
     Inr [\<lparr>Pattern = ''*.tmp'', Action = ActionExclude\<rparr>,
          \<lparr>Pattern = ''keep.tmp'', Action = ActionInclude\<rparr>,
          \<lparr>Pattern = ''#literal'', Action = ActionExclude\<rparr>,
          \<lparr>Pattern = ''!bang'', Action = ActionExclude\<rparr>,
          \<lparr>Pattern = ''name '', Action = ActionExclude\<rparr>]"
proof -
  define ls where "ls = rawLines [] parseExample"
  have lines: "ls = [[], ''# comment'', ''*.tmp'' @ [CHR 0x0D], ''!keep.tmp'',
      [bslash] @ ''#literal'', [bslash] @ ''!bang  '', ''name'' @ [bslash] @ '' '', ''!'']"
    unfolding ls_def by code_simp
  have short: "\<not> list_ex (\<lambda>l. MaxScanTokenSize \<le> length l) ls"
    unfolding lines by (simp add: MaxScanTokenSize_def)
  have rules: "List.map_filter specLineRule ls =
     [\<lparr>Pattern = ''*.tmp'', Action = ActionExclude\<rparr>,
          \<lparr>Pattern = ''keep.tmp'', Action = ActionInclude\<rparr>,
          \<lparr>Pattern = ''#literal'', Action = ActionExclude\<rparr>,
          \<lparr>Pattern = ''!bang'', Action = ActionExclude\<rparr>,
          \<lparr>Pattern = ''name '', Action = ActionExclude\<rparr>]"
    unfolding lines by code_simp
  show ?thesis
    using ParseRules_line_by_line [of parseExample] short rules
    unfolding ls_def by simp
qed

section \<open>Exact path rules\<close>

lemma Index_Some:
  "Index s sub = Some k \<Longrightarrow>
     prefix sub (drop k s) \<and> k \<le> length s \<and> (\<forall>j<k. \<not> prefix sub (drop j s))"
proof (induction s arbitrary: k)
  case Nil
  then show ?case by (auto split: if_splits)
next
  case (Cons c cs)
  show ?case
  proof (cases "prefix sub (c # cs)")
    case True
    with Cons.prems show ?thesis by simp
  next
    case False
    with Cons.prems obtain k' where k: "k = Suc k'" and i: "Index cs sub = Some k'"
      by auto
    from Cons.IH [OF i] have a: "prefix sub (drop k' cs)" "k' \<le> length cs"
      "\<forall>j<k'. \<not> prefix sub (drop j cs)" by simp_all
    have "\<not> prefix sub (drop j (c # cs))" if "j < k" for j
      using that False a(3) k by (cases j) auto
    with a k show ?thesis by simp
  qed
qed

lemma Index_None:
  "Index s sub = None \<Longrightarrow> \<not> prefix sub (drop j s)"
proof (induction s arbitrary: j)
  case Nil
  then show ?case by (auto split: if_splits)
next
  case (Cons c cs)
  then show ?case by (cases j) (auto split: if_splits)
qed

lemma prefix_drop_length:
  assumes "prefix p (drop i s)" "p \<noteq> []"
  shows "i + length p \<le> length s"
proof -
  from assms(1) have "length p \<le> length (drop i s)" by (rule prefix_length_le)
  moreover from assms have "drop i s \<noteq> []" by auto
  ultimately show ?thesis by simp
qed

lemma containsDirPathFrom_iff:
  "pattern \<noteq> [] \<Longrightarrow>
     containsDirPathFrom pattern candidate isDir start \<longleftrightarrow>
           (\<exists>i\<ge>start. dirOccurrence pattern candidate isDir i)"
proof (induction pattern candidate isDir start rule: containsDirPathFrom.induct)
  case (1 pattern candidate isDir start)
  note IH = "1.IH"
  note pne = "1.prems"
  show ?case
  proof (cases "start < length candidate")
    case False
    have "\<not> dirOccurrence pattern candidate isDir i" if "start \<le> i" for i
      using that False pne by (auto simp: dirOccurrence_def)
    with False show ?thesis
      by (subst containsDirPathFrom.simps) auto
  next
    case lt: True
    show ?thesis
    proof (cases "Index (drop start candidate) pattern")
      case None
      have "\<not> dirOccurrence pattern candidate isDir i" if "start \<le> i" for i
      proof -
        from Index_None [OF None, of "i - start"] that
        have "\<not> prefix pattern (drop i candidate)" by simp
        then show ?thesis by (simp add: dirOccurrence_def)
      qed
      with None lt show ?thesis
        by (subst containsDirPathFrom.simps) auto
    next
      case (Some k)
      define idx where "idx = k + start"
      from Index_Some [OF Some] have occ: "prefix pattern (drop idx candidate)"
        and least: "\<forall>j<k. \<not> prefix pattern (drop (j + start) candidate)"
        by (simp_all add: idx_def add.commute)
      from prefix_drop_length [OF occ pne] have le: "idx + length pattern \<le> length candidate" .
      have good: "dirOccurrence pattern candidate isDir idx \<longleftrightarrow>
          (idx = 0 \<or> candidate ! (idx - 1) = CHR ''/'') \<and>
          (idx + length pattern = length candidate \<or> candidate ! (idx + length pattern) = CHR ''/'') \<and>
          (idx + length pattern < length candidate \<or> isDir)"
        using occ le by (auto simp: dirOccurrence_def)
      have before: "\<not> dirOccurrence pattern candidate isDir i" if "start \<le> i" "i < idx" for i
      proof -
        from that have "i - start < k" by (simp add: idx_def)
        with least have "\<not> prefix pattern (drop (i - start + start) candidate)" by blast
        with that show ?thesis by (simp add: dirOccurrence_def)
      qed
      show ?thesis
      proof (cases "dirOccurrence pattern candidate isDir idx")
        case True
        then have "containsDirPathFrom pattern candidate isDir start"
          using Some lt good by (subst containsDirPathFrom.simps) (simp add: idx_def Let_def)
        moreover have "start \<le> idx" by (simp add: idx_def)
        ultimately show ?thesis using True by blast
      next
        case False
        then have step: "containsDirPathFrom pattern candidate isDir start
              = containsDirPathFrom pattern candidate isDir (idx + 1)"
          using Some lt good by (subst containsDirPathFrom.simps) (auto simp: idx_def Let_def)
        have "containsDirPathFrom pattern candidate isDir (idx + 1)
                \<longleftrightarrow> (\<exists>i\<ge>idx + 1. dirOccurrence pattern candidate isDir i)"
          using IH [OF lt Some refl refl refl refl _ pne] False good
          by (simp add: idx_def)
        moreover have "(\<exists>i\<ge>idx + 1. dirOccurrence pattern candidate isDir i)
                \<longleftrightarrow> (\<exists>i\<ge>start. dirOccurrence pattern candidate isDir i)"
        proof
          assume "\<exists>i\<ge>idx + 1. dirOccurrence pattern candidate isDir i"
          then obtain i where "idx + 1 \<le> i" "dirOccurrence pattern candidate isDir i" by blast
          moreover have "start \<le> idx" by (simp add: idx_def)
          ultimately show "\<exists>i\<ge>start. dirOccurrence pattern candidate isDir i"
            by (intro exI [of _ i]) simp
        next
          assume "\<exists>i\<ge>start. dirOccurrence pattern candidate isDir i"
          then obtain i where i: "start \<le> i" "dirOccurrence pattern candidate isDir i" by blast
          have "\<not> i < idx" using before i by blast
          moreover have "i \<noteq> idx" using False i(2) by blast
          ultimately have "idx + 1 \<le> i" by simp
          with i(2) show "\<exists>i\<ge>idx + 1. dirOccurrence pattern candidate isDir i" by blast
        qed
        ultimately show ?thesis using step by simp
      qed
    qed
  qed
qed

lemma compileRule_strategy:
  assumes "compileRule rx rule ci = Inr cr"
  defines "pat \<equiv> (if ci then asciiLower (normalizePattern (Pattern rule))
                  else normalizePattern (Pattern rule))"
  defines "core \<equiv> Trim (TrimSuffix (TrimPrefix pat ''/'') ''/'') ''/''"
  shows "core \<noteq> []"
    and "anchored cr = HasPrefix pat ''/''"
    and "dirOnly cr = HasSuffix pat ''/''"
    and "hasSlash cr = (Contains core ''/'' \<or> HasPrefix pat ''/'')"
    and "pathExact cr = (if hasSlash cr \<and> \<not> patternHasGlobMeta core then core else [])"
    and "pathPrefixSegments cr =
          (if hasSlash cr \<and> patternHasGlobMeta core \<and> snd (CutSuffix core ''/**'') \<and>
              fst (CutSuffix core ''/**'') \<noteq> [] \<and>
              canUseSimplePathSegments (fst (CutSuffix core ''/**''))
           then compilePathSegments (fst (CutSuffix core ''/**'')) else [])"
  using assms(1) unfolding compileRule_def zeroRule_def pat_def core_def
  by (simp_all add: Let_def split: if_splits) auto

text \<open>
  Claim C4. A rule compiles to the strategy PathExact exactly when its stripped pattern has
  a slash or was anchored and has no glob meta. Such a rule matches a non-empty candidate
  as follows: anchored and not dir-only, when the candidate equals the pattern; anchored
  and dir-only, when it equals the pattern or starts with the pattern and a slash;
  unanchored and not dir-only, when it equals the pattern or ends with a slash and the
  pattern; unanchored and dir-only, when the pattern occurs as a run of full segments,
  an occurrence at the end counting only for a directory.
\<close>

theorem PathExact_matching:
  assumes "compileRule rx rule ci = Inr cr"
  shows
   "(pathExact cr \<noteq> [] \<longleftrightarrow> hasSlash cr \<and> \<not> patternHasGlobMeta
        (Trim (TrimSuffix (TrimPrefix (if ci then asciiLower (normalizePattern (Pattern rule))
            else normalizePattern (Pattern rule)) ''/'') ''/'') ''/'')) \<and>
    (pathExact cr \<noteq> [] \<and> candidate \<noteq> [] \<longrightarrow>
       matches rx cr candidate isDir =
         (if anchored cr
          then (if \<not> dirOnly cr then candidate = pathExact cr
                else candidate = pathExact cr \<or> prefix (pathExact cr @ ''/'') candidate)
          else if \<not> dirOnly cr
          then candidate = pathExact cr \<or> suffix (''/'' @ pathExact cr) candidate
          else (\<exists>i. dirOccurrence (pathExact cr) candidate isDir i)))"
proof (intro conjI impI)
  note st = compileRule_strategy [OF assms]
  show "pathExact cr \<noteq> [] \<longleftrightarrow> hasSlash cr \<and> \<not> patternHasGlobMeta
        (Trim (TrimSuffix (TrimPrefix (if ci then asciiLower (normalizePattern (Pattern rule))
            else normalizePattern (Pattern rule)) ''/'') ''/'') ''/'')"
    using st(1) st(5) by auto
  assume a: "pathExact cr \<noteq> [] \<and> candidate \<noteq> []"
  then have hs: "hasSlash cr" using st(5) by (auto split: if_splits)
  have "containsDirPath (pathExact cr) candidate isDir
          \<longleftrightarrow> (\<exists>i. dirOccurrence (pathExact cr) candidate isDir i)"
    using a containsDirPathFrom_iff [of "pathExact cr" candidate isDir 0]
    by (simp add: containsDirPath_def)
  then show "matches rx cr candidate isDir =
         (if anchored cr
          then (if \<not> dirOnly cr then candidate = pathExact cr
                else candidate = pathExact cr \<or> prefix (pathExact cr @ ''/'') candidate)
          else if \<not> dirOnly cr
          then candidate = pathExact cr \<or> suffix (''/'' @ pathExact cr) candidate
          else (\<exists>i. dirOccurrence (pathExact cr) candidate isDir i))"
    using a hs by (simp add: matches_def matchExactPathRule_def HasPrefix_def HasSuffix_def)
qed

theorem PathExact_matching_witness:
  "matches exampleRegexp (projr (compileRule exampleRegexp dirExactRule False))
      ''var/cache/tmp/x.bin'' False \<and>
   matches exampleRegexp (projr (compileRule exampleRegexp dirExactRule False))
      ''var/cache/tmp'' True \<and>
   \<not> matches exampleRegexp (projr (compileRule exampleRegexp dirExactRule False))
      ''var/cache/tmp'' False"
proof -
  define cr where "cr = projr (compileRule exampleRegexp dirExactRule False)"
  have "\<not> isl (compileRule exampleRegexp dirExactRule False)" by code_simp
  then have c: "compileRule exampleRegexp dirExactRule False = Inr cr"
    unfolding cr_def by simp
  have pe: "pathExact cr = ''cache/tmp''" unfolding cr_def by code_simp
  have an: "\<not> anchored cr" unfolding cr_def by code_simp
  have d: "dirOnly cr" unfolding cr_def by code_simp
  have m: "matches exampleRegexp cr candidate isDir
        = (\<exists>i. dirOccurrence ''cache/tmp'' candidate isDir i)" if "candidate \<noteq> []"
    for candidate isDir
    using PathExact_matching [OF c, of candidate isDir] that pe an d by simp
  have o1: "dirOccurrence ''cache/tmp'' ''var/cache/tmp/x.bin'' False 4"
    by (simp add: dirOccurrence_def)
  have o2: "dirOccurrence ''cache/tmp'' ''var/cache/tmp'' True 4"
    by (simp add: dirOccurrence_def)
  have o3: "\<not> dirOccurrence ''cache/tmp'' ''var/cache/tmp'' False i" for i
  proof
    assume occ: "dirOccurrence ''cache/tmp'' ''var/cache/tmp'' False i"
    then have "prefix ''cache/tmp'' (drop i ''var/cache/tmp'')"
      by (simp add: dirOccurrence_def)
    from prefix_drop_length [OF this] have "i \<le> 4" by simp
    then consider "i = 0" | "i = 1" | "i = 2" | "i = 3" | "i = 4" by arith
    then show False
      using occ by cases (simp_all add: dirOccurrence_def)
  qed
  show ?thesis
    using m [of "''var/cache/tmp/x.bin''" False] m [of "''var/cache/tmp''" True]
      m [of "''var/cache/tmp''" False] o1 o2 o3
    unfolding cr_def by auto
qed

section \<open>Patterns with a trailing double star\<close>

lemma IndexByte_Some:
  "IndexByte s b = Some k \<Longrightarrow> k < length s \<and> s ! k = b \<and> (\<forall>j<k. s ! j \<noteq> b)"
proof (induction s arbitrary: k)
  case Nil
  then show ?case by simp
next
  case (Cons c cs)
  show ?case
  proof (cases "c = b")
    case True
    with Cons.prems show ?thesis by simp
  next
    case False
    with Cons.prems obtain k' where k: "k = Suc k'" and i: "IndexByte cs b = Some k'" by auto
    from Cons.IH [OF i] have a: "k' < length cs" "cs ! k' = b" "\<forall>j<k'. cs ! j \<noteq> b" by simp_all
    have "(c # cs) ! j \<noteq> b" if "j < k" for j
      using that False a(3) k by (cases j) auto
    with a k show ?thesis by simp
  qed
qed

lemma IndexByte_None: "IndexByte s b = None \<Longrightarrow> b \<notin> set s"
  by (induction s) (auto split: if_splits)

lemma prefixDoubleStarFrom_iff:
  "prefixDoubleStarFrom pre candidate start \<longleftrightarrow>
     (\<exists>s. (s = start \<or> (start < s \<and> candidate ! (s - 1) = CHR ''/'')) \<and>
          descendantMatchAt pre candidate s)"
proof (induction pre candidate start rule: prefixDoubleStarFrom.induct)
  case (1 pre candidate start)
  note IH = "1.IH"
  have lt: "s < length candidate" if "descendantMatchAt pre candidate s" for s
    using that by (auto simp: descendantMatchAt_def matchPathSegmentsAt_def split: if_splits)
  show ?case
  proof (cases "descendantMatchAt pre candidate start")
    case True
    then have "prefixDoubleStarFrom pre candidate start"
      by (subst prefixDoubleStarFrom.simps)
         (auto simp: descendantMatchAt_def split: prod.splits)
    with True show ?thesis by blast
  next
    case False
    then have nd: "\<not> (snd (matchPathSegmentsAt pre candidate start) \<and>
        fst (matchPathSegmentsAt pre candidate start) < length candidate \<and>
        candidate ! fst (matchPathSegmentsAt pre candidate start) = CHR ''/'')"
      by (simp add: descendantMatchAt_def)
    show ?thesis
    proof (cases "IndexByte (drop start candidate) CHR ''/''")
      case None
      then have stop: "\<not> prefixDoubleStarFrom pre candidate start"
        using nd by (subst prefixDoubleStarFrom.simps) (auto split: prod.splits)
      have "\<not> descendantMatchAt pre candidate s"
        if "start < s" "candidate ! (s - 1) = CHR ''/''" for s
      proof
        assume "descendantMatchAt pre candidate s"
        from lt [OF this] that(1) have "s - 1 - start < length (drop start candidate)" by simp
        then have "drop start candidate ! (s - 1 - start) \<in> set (drop start candidate)"
          by (rule nth_mem)
        moreover have "drop start candidate ! (s - 1 - start) = CHR ''/''"
          using that \<open>s - 1 - start < length (drop start candidate)\<close> by simp
        ultimately show False using IndexByte_None [OF None] by simp
      qed
      with stop False show ?thesis by blast
    next
      case (Some k)
      from IndexByte_Some [OF Some] have k0: "k < length candidate - start"
        "drop start candidate ! k = CHR ''/''" "\<forall>j<k. drop start candidate ! j \<noteq> CHR ''/''"
        by simp_all
      then have sl: "start \<le> length candidate" by simp
      have k: "start + k < length candidate"
        "candidate ! (start + k) = CHR ''/''" "\<forall>j<k. candidate ! (start + j) \<noteq> CHR ''/''"
        using k0 sl by (simp_all add: nth_drop)
      have step: "prefixDoubleStarFrom pre candidate start
                = prefixDoubleStarFrom pre candidate (start + k + 1)"
        using nd Some by (subst prefixDoubleStarFrom.simps) (auto split: prod.splits)
      have ih: "prefixDoubleStarFrom pre candidate (start + k + 1) \<longleftrightarrow>
         (\<exists>s. (s = start + k + 1 \<or> (start + k + 1 < s \<and> candidate ! (s - 1) = CHR ''/'')) \<and>
              descendantMatchAt pre candidate s)"
        using IH [OF _ refl _ Some] nd
        by (cases "matchPathSegmentsAt pre candidate start") auto
      have "(\<exists>s. (s = start + k + 1 \<or> (start + k + 1 < s \<and> candidate ! (s - 1) = CHR ''/'')) \<and>
              descendantMatchAt pre candidate s)
          \<longleftrightarrow> (\<exists>s. (s = start \<or> (start < s \<and> candidate ! (s - 1) = CHR ''/'')) \<and>
              descendantMatchAt pre candidate s)" (is "?L \<longleftrightarrow> ?R")
      proof
        assume ?L
        then obtain s where s: "s = start + k + 1 \<or> (start + k + 1 < s \<and> candidate ! (s - 1) = CHR ''/'')"
          and d: "descendantMatchAt pre candidate s" by blast
        from s k(2) have "start < s \<and> candidate ! (s - 1) = CHR ''/''" by auto
        with d show ?R by blast
      next
        assume ?R
        then obtain s where s: "s = start \<or> (start < s \<and> candidate ! (s - 1) = CHR ''/'')"
          and d: "descendantMatchAt pre candidate s" by blast
        from s d False have s': "start < s" "candidate ! (s - 1) = CHR ''/''" by auto
        have "\<not> s - 1 - start < k"
        proof
          assume "s - 1 - start < k"
          with k(3) have "candidate ! (start + (s - 1 - start)) \<noteq> CHR ''/''" by blast
          with s' show False by simp
        qed
        with s'(1) have "s = start + k + 1 \<or> start + k + 1 < s" by arith
        with s'(2) d show ?L by blast
      qed
      with step ih show ?thesis by simp
    qed
  qed
qed

lemma segmentsLoop_slashes:
  "segs \<noteq> [] \<Longrightarrow> segmentsLoop segs candidate index = (e, True) \<Longrightarrow>
     index < e \<and> e \<le> length candidate \<and>
     count_list (take (e - index) (drop index candidate)) CHR ''/'' = length segs - 1"
proof (induction segs arbitrary: index)
  case Nil
  then show ?case by simp
next
  case (Cons p ps)
  define w where "w = takeWhile (\<lambda>c. c \<noteq> CHR ''/'') (drop index candidate)"
  define e0 where "e0 = index + length w"
  have wlen: "length w \<le> length candidate - index"
    unfolding w_def using length_takeWhile_le [of "\<lambda>c. c \<noteq> CHR ''/''" "drop index candidate"]
    by simp
  have nosl: "count_list w CHR ''/'' = 0"
    unfolding w_def by (auto simp: count_list_0_iff dest: set_takeWhileD)
  have tw: "take (length w) (drop index candidate) = w"
    unfolding w_def by (metis takeWhile_eq_take)
  from Cons.prems(2) have ne: "e0 \<noteq> index"
    and rest: "(if ps = [] then (e0, True)
               else if e0 \<ge> length candidate \<or> candidate ! e0 \<noteq> CHR ''/'' then (0, False)
               else segmentsLoop ps candidate (e0 + 1)) = (e, True)"
    by (auto simp: Let_def w_def e0_def split: if_splits)
  from ne have wne: "0 < length w" by (simp add: e0_def)
  with wlen have il: "index < length candidate" by linarith
  show ?case
  proof (cases "ps = []")
    case True
    with rest have "e = e0" by simp
    then show ?thesis
      using wne wlen il nosl tw True by (simp add: e0_def)
  next
    case False
    with rest have e0lt: "e0 < length candidate" and sl: "candidate ! e0 = CHR ''/''"
      and rec: "segmentsLoop ps candidate (e0 + 1) = (e, True)"
      by (auto split: if_splits)
    from Cons.IH [OF False rec] have lt: "e0 + 1 < e" and le: "e \<le> length candidate"
      and cnt: "count_list (take (e - (e0 + 1)) (drop (e0 + 1) candidate)) CHR ''/'' = length ps - 1"
      by simp_all
    have "drop index candidate = take (length w) (drop index candidate) @ drop (length w) (drop index candidate)"
      by (rule append_take_drop_id [symmetric])
    also have "drop (length w) (drop index candidate) = drop e0 candidate"
      by (simp add: e0_def add.commute)
    also have "drop e0 candidate = candidate ! e0 # drop (e0 + 1) candidate"
      using e0lt by (simp add: Cons_nth_drop_Suc)
    finally have dec: "drop index candidate = w @ CHR ''/'' # drop (e0 + 1) candidate"
      using tw sl by simp
    have "e - index = length w + 1 + (e - (e0 + 1))"
      using lt by (simp add: e0_def)
    then have "take (e - index) (drop index candidate)
             = w @ CHR ''/'' # take (e - (e0 + 1)) (drop (e0 + 1) candidate)"
      by (simp add: dec)
    then have "count_list (take (e - index) (drop index candidate)) CHR ''/'' = length ps"
      using nosl cnt False by (cases ps) simp_all
    with lt le show ?thesis by (simp add: e0_def)
  qed
qed

lemma bare_directory_no_descendant:
  assumes segs: "segs \<noteq> []"
    and whole: "matchPathSegmentsAt segs candidate 0 = (length candidate, True)"
  shows "\<not> descendantMatchAt segs candidate s"
proof
  assume d: "descendantMatchAt segs candidate s"
  define e where "e = fst (matchPathSegmentsAt segs candidate s)"
  from d have m: "matchPathSegmentsAt segs candidate s = (e, True)"
    and elt: "e < length candidate" and sl: "candidate ! e = CHR ''/''"
    by (auto simp: descendantMatchAt_def e_def intro: prod_eqI)
  from m have slt: "s < length candidate" and loop: "segmentsLoop segs candidate s = (e, True)"
    by (auto simp: matchPathSegmentsAt_def split: if_splits)
  from whole have loop0: "segmentsLoop segs candidate 0 = (length candidate, True)"
    by (auto simp: matchPathSegmentsAt_def split: if_splits)
  from segmentsLoop_slashes [OF segs loop0]
  have total: "count_list candidate CHR ''/'' = length segs - 1" by simp
  from segmentsLoop_slashes [OF segs loop]
  have se: "s < e" and mid: "count_list (take (e - s) (drop s candidate)) CHR ''/'' = length segs - 1"
    by simp_all
  have "candidate = take s candidate @ drop s candidate" by simp
  also have "drop s candidate = take (e - s) (drop s candidate) @ drop (e - s) (drop s candidate)"
    by (rule append_take_drop_id [symmetric])
  also have "drop (e - s) (drop s candidate) = drop e candidate"
    using se by simp
  also have "drop e candidate = CHR ''/'' # drop (e + 1) candidate"
    using elt sl Cons_nth_drop_Suc [of e candidate] by simp
  finally have dec: "candidate = take s candidate @ take (e - s) (drop s candidate)
      @ CHR ''/'' # drop (e + 1) candidate" .
  have "count_list candidate CHR ''/'' =
      count_list (take s candidate @ take (e - s) (drop s candidate)
        @ CHR ''/'' # drop (e + 1) candidate) CHR ''/''"
    by (rule arg_cong [where f = "\<lambda>x. count_list x CHR ''/''", OF dec])
  also have "\<dots> = count_list (take s candidate) CHR ''/'' + (length segs - 1) + 1
        + count_list (drop (e + 1) candidate) CHR ''/''"
    using mid by simp
  finally have "count_list candidate CHR ''/'' =
      count_list (take s candidate) CHR ''/'' + (length segs - 1) + 1
        + count_list (drop (e + 1) candidate) CHR ''/''" .
  with total show False by simp
qed

lemma splitSlash_nonempty: "splitSlash cur s \<noteq> []"
  by (induction s arbitrary: cur) auto

lemma compilePathSegments_nonempty: "compilePathSegments p \<noteq> []"
  by (simp add: compilePathSegments_def splitSlash_nonempty)

lemma doublestar_suffix_meta:
  assumes "suffix ''/**'' core"
  shows "Contains core ''/''" and "patternHasGlobMeta core"
proof -
  from assms obtain ps where core: "core = ps @ ''/**''" by (auto simp: suffix_def)
  then have "core = ps @ ''/'' @ ''**''" by simp
  then show "Contains core ''/''" using Contains_append by metis
  have "length core - 1 < length core" "core ! (length core - 1) = CHR ''*''"
    by (simp_all add: core nth_append)
  then show "patternHasGlobMeta core"
    unfolding patternHasGlobMeta_def list_ex_iff by (intro bexI [of _ "length core - 1"]) simp_all
qed

text \<open>
  The structure of the strategy PathPrefixSegments. A rule compiles to it exactly when its
  stripped pattern is a non-empty prefix without \<open>**\<close> and without a character class,
  followed by \<open>/**\<close>. Such a rule matches a candidate exactly when \<open>matchPathSegmentsAt\<close>
  accepts the prefix segments from offset 0 (anchored) or from some slash boundary
  (unanchored) and the byte right after the match is \<open>/\<close>. A candidate that the segments
  match from offset 0 to its end, the bare directory, never matches.
\<close>

theorem PathPrefixSegments_matching:
  assumes "compileRule rx rule ci = Inr cr"
  defines "core \<equiv> Trim (TrimSuffix (TrimPrefix (if ci then asciiLower (normalizePattern (Pattern rule))
            else normalizePattern (Pattern rule)) ''/'') ''/'') ''/''"
  shows
   "(pathPrefixSegments cr \<noteq> [] \<longleftrightarrow>
       suffix ''/**'' core \<and> take (length core - 3) core \<noteq> [] \<and>
       \<not> Contains (take (length core - 3) core) ''**'' \<and>
       \<not> patternHasCharClass (take (length core - 3) core)) \<and>
    (pathPrefixSegments cr \<noteq> [] \<longrightarrow>
       pathPrefixSegments cr = compilePathSegments (take (length core - 3) core) \<and>
       (matches rx cr candidate isDir \<longleftrightarrow>
          (\<exists>s. (if anchored cr then s = 0 else slashBoundary candidate s) \<and>
               descendantMatchAt (pathPrefixSegments cr) candidate s)) \<and>
       (matchPathSegmentsAt (pathPrefixSegments cr) candidate 0 = (length candidate, True) \<longrightarrow>
          \<not> matches rx cr candidate isDir))"
proof -
  note st = compileRule_strategy [OF assms(1), folded core_def]
  define pre where "pre = take (length core - 3) core"
  have cut: "snd (CutSuffix core ''/**'') = suffix ''/**'' core"
    "suffix ''/**'' core \<Longrightarrow> fst (CutSuffix core ''/**'') = pre"
    by (simp_all add: CutSuffix_def pre_def numeral_3_eq_3)
  have sel: "pathPrefixSegments cr =
      (if suffix ''/**'' core \<and> pre \<noteq> [] \<and> \<not> Contains pre ''**'' \<and> \<not> patternHasCharClass pre
       then compilePathSegments pre else [])"
  proof (cases "suffix ''/**'' core")
    case True
    then show ?thesis
      using st(4) st(6) cut doublestar_suffix_meta [OF True]
      by (auto simp: canUseSimplePathSegments_def)
  next
    case False
    then show ?thesis using st(6) cut by simp
  qed
  have first: "pathPrefixSegments cr \<noteq> [] \<longleftrightarrow>
       suffix ''/**'' core \<and> pre \<noteq> [] \<and> \<not> Contains pre ''**'' \<and> \<not> patternHasCharClass pre"
    using sel compilePathSegments_nonempty by auto
  have second: "pathPrefixSegments cr = compilePathSegments pre \<and>
       (matches rx cr candidate isDir \<longleftrightarrow>
          (\<exists>s. (if anchored cr then s = 0 else slashBoundary candidate s) \<and>
               descendantMatchAt (pathPrefixSegments cr) candidate s)) \<and>
       (matchPathSegmentsAt (pathPrefixSegments cr) candidate 0 = (length candidate, True) \<longrightarrow>
          \<not> matches rx cr candidate isDir)"
    if ne: "pathPrefixSegments cr \<noteq> []"
  proof -
    from ne first have suf: "suffix ''/**'' core" by simp
    from doublestar_suffix_meta [OF suf] st(4) st(5)
    have hs: "hasSlash cr" and pe: "pathExact cr = []" by simp_all
    have empty: "\<not> descendantMatchAt (pathPrefixSegments cr) [] s" for s
      by (simp add: descendantMatchAt_def)
    have m: "matches rx cr candidate isDir \<longleftrightarrow>
          (\<exists>s. (if anchored cr then s = 0 else slashBoundary candidate s) \<and>
               descendantMatchAt (pathPrefixSegments cr) candidate s)"
    proof (cases "candidate = []")
      case True
      then show ?thesis using empty by (simp add: matches_def)
    next
      case False
      have "matches rx cr candidate isDir
          = matchPathPrefixDoubleStar (pathPrefixSegments cr) candidate (anchored cr)"
        using False hs pe ne by (simp add: matches_def)
      also have "\<dots> \<longleftrightarrow> (\<exists>s. (if anchored cr then s = 0 else slashBoundary candidate s) \<and>
               descendantMatchAt (pathPrefixSegments cr) candidate s)"
      proof (cases "anchored cr")
        case True
        then show ?thesis
          using False ne
          by (auto simp: matchPathPrefixDoubleStar_def descendantMatchAt_def split: prod.splits)
      next
        case unanch: False
        have "prefixDoubleStarFrom (pathPrefixSegments cr) candidate 0 \<longleftrightarrow>
            (\<exists>s. slashBoundary candidate s \<and> descendantMatchAt (pathPrefixSegments cr) candidate s)"
          unfolding prefixDoubleStarFrom_iff slashBoundary_def by auto
        then show ?thesis
          using False ne unanch by (simp add: matchPathPrefixDoubleStar_def)
      qed
      finally show ?thesis .
    qed
    have bare: "\<not> matches rx cr candidate isDir"
      if "matchPathSegmentsAt (pathPrefixSegments cr) candidate 0 = (length candidate, True)"
      using bare_directory_no_descendant [OF ne that] m by simp
    from sel ne bare m show ?thesis by (auto split: if_splits)
  qed
  show ?thesis
    using first second unfolding pre_def by blast
qed

theorem PathPrefixSegments_matching_witness:
  "matches exampleRegexp (projr (compileRule exampleRegexp subtreeRule False))
      ''assets/group/file.paa'' False \<and>
   matches exampleRegexp (projr (compileRule exampleRegexp subtreeRule False))
      ''mods/assets/group/file.paa'' False \<and>
   \<not> matches exampleRegexp (projr (compileRule exampleRegexp subtreeRule False))
      ''assets/group'' True"
proof -
  define cr where "cr = projr (compileRule exampleRegexp subtreeRule False)"
  have "\<not> isl (compileRule exampleRegexp subtreeRule False)" by code_simp
  then have c: "compileRule exampleRegexp subtreeRule False = Inr cr"
    unfolding cr_def by simp
  have ne: "pathPrefixSegments cr \<noteq> []" unfolding cr_def by code_simp
  have an: "\<not> anchored cr" unfolding cr_def by code_simp
  note inst = PathPrefixSegments_matching [OF c]
  have m: "matches exampleRegexp cr candidate isDir \<longleftrightarrow>
      (\<exists>s. slashBoundary candidate s \<and> descendantMatchAt (pathPrefixSegments cr) candidate s)"
    for candidate isDir
    using inst [of candidate isDir] ne an by simp
  have bare: "matchPathSegmentsAt (pathPrefixSegments cr) candidate 0 = (length candidate, True)
      \<Longrightarrow> \<not> matches exampleRegexp cr candidate isDir" for candidate isDir
    using inst [of candidate isDir] ne by blast
  have d1: "slashBoundary ''assets/group/file.paa'' 0 \<and>
      descendantMatchAt (pathPrefixSegments cr) ''assets/group/file.paa'' 0"
    unfolding cr_def by code_simp
  have d2: "slashBoundary ''mods/assets/group/file.paa'' 5 \<and>
      descendantMatchAt (pathPrefixSegments cr) ''mods/assets/group/file.paa'' 5"
    unfolding cr_def by code_simp
  have d3: "matchPathSegmentsAt (pathPrefixSegments cr) ''assets/group'' 0
      = (length ''assets/group'', True)"
    unfolding cr_def by code_simp
  have "matches exampleRegexp cr ''assets/group/file.paa'' False"
    unfolding m using d1 by blast
  moreover have "matches exampleRegexp cr ''mods/assets/group/file.paa'' False"
    unfolding m using d2 by blast
  moreover have "\<not> matches exampleRegexp cr ''assets/group'' True"
    using bare [OF d3] .
  ultimately show ?thesis unfolding cr_def by simp
qed

text \<open>
  Claim C5 says that a pattern \<open>prefix/**\<close> matches a candidate when the prefix segments
  match at a slash boundary and a \<open>/\<close> follows. For the pattern \<open>a*/**\<close> and the candidate
  \<open>a*b/c\<close> they do: the segment \<open>a*b\<close> is \<open>a\<close> and a run of bytes, and a \<open>/\<close> follows it. The
  code does not match. \<open>matchSimpleWildcard\<close> tests for an equal byte before it tests for
  a star in the pattern, so the star of the pattern is spent on the star of the candidate
  as a literal byte, no star is remembered, and the \<open>b\<close> behind it finds nothing to match.
  The same pattern matches \<open>axb/c\<close>, and \<open>*\<close> alone matches the segment \<open>x*\<close> and not \<open>*x\<close>.
\<close>

theorem star_in_candidate_defeats_wildcard:
  "pathPrefixSegments (projr (compileRule exampleRegexp starSubtreeRule False))
     = [\<lparr>text' = ''a*'', wildcard = True\<rparr>] \<and>
   globMatch ''a*'' ''a*b'' \<and> ''a*b/c'' ! 3 = CHR ''/'' \<and>
   \<not> matchSimpleWildcard ''a*'' ''a*b'' \<and>
   \<not> matches exampleRegexp (projr (compileRule exampleRegexp starSubtreeRule False))
       ''a*b/c'' False \<and>
   matches exampleRegexp (projr (compileRule exampleRegexp starSubtreeRule False))
       ''axb/c'' False \<and>
   globMatch ''*'' ''*x'' \<and> \<not> matchSimpleWildcard ''*'' ''*x'' \<and>
   matchSimpleWildcard ''*'' ''x*''"
  by code_simp

section \<open>Paths the provider refuses\<close>

text \<open>
  Claim C3 says that \<open>Provider.Decide\<close> refuses every path with a \<open>..\<close> component. The path
  \<open>././../a.tmp\<close> has one and is accepted: the first \<open>./\<close> is cut before the test for a
  leading \<open>../\<close>, the second one after it, and \<open>normalizePath\<close> then cleans \<open>../a.tmp\<close>
  to \<open>a.tmp\<close>. The decision returned is the one for \<open>a.tmp\<close>, with no error.
\<close>

theorem Decide_accepts_dotdot_component:
  "cleanRelPath ''././../a.tmp'' = Inr ''a.tmp'' \<and>
   fst (Provider_Decide exampleRegexp exampleFiles (Some exampleProvider) ''././../a.tmp'' False)
     = (\<lparr>Included = False, Matched = True, RuleIndex = 0\<rparr>, None) \<and>
   fst (Provider_Decide exampleRegexp exampleFiles (Some exampleProvider) ''../a.tmp'' False)
     = (zeroMatchResult, Some ErrPathOutsideRoot)"
  by code_simp

end
